theory Spec2Isabelle
  imports Main
begin

section \<open>Characters and strings\<close>

text \<open>
  A Python \<open>str\<close> is a sequence of code points. The source text is modelled as a
  \<open>string\<close> whose characters are read as the code points U+0000 to U+00FF, one
  \<open>char\<close> per code point. The predicates below are \<open>str.isspace\<close>,
  \<open>str.isalpha\<close>, \<open>str.isdigit\<close> and \<open>str.isalnum\<close> on that range.
\<close>

definition isspace :: "char \<Rightarrow> bool" where
  "isspace c =
     (let n = (of_char c :: nat)
      in (9 \<le> n \<and> n \<le> 13) \<or> (28 \<le> n \<and> n \<le> 32) \<or> n = 133 \<or> n = 160)"

definition isalpha :: "char \<Rightarrow> bool" where
  "isalpha c =
     (let n = (of_char c :: nat)
      in (65 \<le> n \<and> n \<le> 90) \<or> (97 \<le> n \<and> n \<le> 122) \<or> n = 170 \<or> n = 181 \<or> n = 186
         \<or> (192 \<le> n \<and> n \<le> 214) \<or> (216 \<le> n \<and> n \<le> 246) \<or> 248 \<le> n)"

definition isdigit :: "char \<Rightarrow> bool" where
  "isdigit c =
     (let n = (of_char c :: nat)
      in (48 \<le> n \<and> n \<le> 57) \<or> n = 178 \<or> n = 179 \<or> n = 185)"

definition isalnum :: "char \<Rightarrow> bool" where
  "isalnum c =
     (let n = (of_char c :: nat)
      in isalpha c \<or> isdigit c \<or> (188 \<le> n \<and> n \<le> 190))"

text \<open>A text between single quotes, as the messages of the source are formatted.\<close>

definition quoted :: "string \<Rightarrow> string" where
  "quoted s = [CHR 0x27] @ s @ [CHR 0x27]"

text \<open>\<open>str.isdecimal\<close>: the characters \<open>int()\<close> and \<open>float()\<close> read as digits.\<close>

definition isdecimal :: "char \<Rightarrow> bool" where
  "isdecimal c = (let n = (of_char c :: nat) in 48 \<le> n \<and> n \<le> 57)"

section \<open>Lexer (parser/lexer.py)\<close>

datatype TokenType =
    EOF | ERROR
  | IDENTIFIER | INTEGER | FLOAT | STRING
  | IF | ELSE | ELIF | WHILE | FOR | RETURN | BREAK | CONTINUE | FUNCTION | SPELL | RITUAL
  | CONJURE | ENTITY | REALM | DIMENSION
  | VOID | INT_TYPE | FLOAT_TYPE | STRING_TYPE | BOOLEAN | ARRAY | MAP | ELEMENT | ENERGY | SPIRIT
  | MATTER
  | PLUS | MINUS | MULTIPLY | DIVIDE | MODULO | ASSIGN | EQUALS | NOT_EQUALS | LESS_THAN
  | GREATER_THAN | LESS_EQUAL | GREATER_EQUAL | AND | OR | NOT
  | LPAREN | RPAREN | LBRACE | RBRACE | LBRACKET | RBRACKET | COMMA | DOT | SEMICOLON | COLON

record Token =
  tok_type :: TokenType
  tok_value :: string
  tok_line :: int
  tok_column :: int

definition mkToken :: "TokenType \<Rightarrow> string \<Rightarrow> int \<Rightarrow> int \<Rightarrow> Token" where
  "mkToken t v l c = \<lparr>tok_type = t, tok_value = v, tok_line = l, tok_column = c\<rparr>"

record Lexer =
  source :: string
  position :: nat
  line :: int
  column :: int
  current_char :: "char option"

text \<open>\<open>Lexer.__init__\<close>\<close>

definition Lexer_init :: "string \<Rightarrow> Lexer" where
  "Lexer_init src =
     \<lparr>source = src, position = 0, line = 1, column = 1,
      current_char = (if src \<noteq> [] then Some (src ! 0) else None)\<rparr>"

definition keywords_map :: "(string \<times> TokenType) list" where
  "keywords_map =
     [(''if'', IF), (''else'', ELSE), (''elif'', ELIF), (''while'', WHILE), (''for'', FOR),
      (''return'', RETURN), (''break'', BREAK), (''continue'', CONTINUE),
      (''function'', FUNCTION), (''spell'', SPELL), (''ritual'', RITUAL),
      (''conjure'', CONJURE), (''entity'', ENTITY), (''realm'', REALM),
      (''dimension'', DIMENSION), (''Void'', VOID), (''Int'', INT_TYPE), (''Float'', FLOAT_TYPE),
      (''String'', STRING_TYPE), (''Boolean'', BOOLEAN), (''Array'', ARRAY), (''Map'', MAP),
      (''Element'', ELEMENT), (''Energy'', ENERGY), (''Spirit'', SPIRIT),
      (''Matter'', MATTER)]"

definition keywords_get :: "string \<Rightarrow> TokenType \<Rightarrow> TokenType" where
  "keywords_get k d = (case map_of keywords_map k of Some t \<Rightarrow> t | None \<Rightarrow> d)"

definition advance :: "Lexer \<Rightarrow> Lexer" where
  "advance s =
     (let p = position s + 1
      in s\<lparr>position := p,
           line := (if current_char s = Some (CHR 0x0A) then line s + 1 else line s),
           column := (if current_char s = Some (CHR 0x0A) then 1 else column s + 1),
           current_char := (if p < length (source s) then Some (source s ! p) else None)\<rparr>)"

definition peek :: "Lexer \<Rightarrow> char option" where
  "peek s =
     (let peek_pos = position s + 1
      in if peek_pos < length (source s) then Some (source s ! peek_pos) else None)"

text \<open>
  What is left to scan: no loop of the lexer runs once \<open>current_char\<close> is \<open>None\<close>, and
  every \<open>advance\<close> from a state with a current character makes this smaller.
\<close>

definition lex_rest :: "Lexer \<Rightarrow> nat" where
  "lex_rest s =
     (case current_char s of None \<Rightarrow> 0 | Some c \<Rightarrow> Suc (length (source s) - position s))"

lemma lex_rest_advance: "current_char s = Some c \<Longrightarrow> lex_rest (advance s) < lex_rest s"
  by (auto simp: lex_rest_def advance_def Let_def split: option.splits)

lemma lex_rest_advance2:
  "current_char s = Some c \<Longrightarrow> lex_rest (advance (advance s)) < lex_rest s"
  by (auto simp: lex_rest_def advance_def Let_def split: option.splits)

function skip_whitespace :: "Lexer \<Rightarrow> Lexer" where
  "skip_whitespace s =
     (case current_char s of
        Some c \<Rightarrow> if isspace c then skip_whitespace (advance s) else s
      | None \<Rightarrow> s)"
  by pat_completeness auto
termination
  by (relation "measure lex_rest") (auto simp: lex_rest_advance)

declare skip_whitespace.simps [simp del]

text \<open>The two loops of \<open>skip_comment\<close>.\<close>

function line_comment_loop :: "Lexer \<Rightarrow> Lexer" where
  "line_comment_loop s =
     (case current_char s of
        Some c \<Rightarrow> if c \<noteq> CHR 0x0A then line_comment_loop (advance s) else s
      | None \<Rightarrow> s)"
  by pat_completeness auto
termination
  by (relation "measure lex_rest") (auto simp: lex_rest_advance)

declare line_comment_loop.simps [simp del]

function block_comment_loop :: "Lexer \<Rightarrow> Lexer" where
  "block_comment_loop s =
     (case current_char s of
        Some c \<Rightarrow>
          if c = CHR ''*'' \<and> peek s = Some (CHR ''/'') then advance (advance s)
          else block_comment_loop (advance s)
      | None \<Rightarrow> s)"
  by pat_completeness auto
termination
  by (relation "measure lex_rest") (auto simp: lex_rest_advance)

declare block_comment_loop.simps [simp del]

definition skip_comment :: "Lexer \<Rightarrow> Lexer" where
  "skip_comment s =
     (if current_char s = Some (CHR ''/'') \<and> peek s = Some (CHR ''/'') then line_comment_loop s
      else if current_char s = Some (CHR ''/'') \<and> peek s = Some (CHR ''*'')
        then block_comment_loop (advance (advance s))
      else s)"

text \<open>\<open>identifier\<close>: the loop, then the keyword lookup.\<close>

function identifier_loop :: "Lexer \<Rightarrow> string \<Rightarrow> string \<times> Lexer" where
  "identifier_loop s result =
     (case current_char s of
        Some c \<Rightarrow>
          if isalnum c \<or> c = CHR ''_'' then identifier_loop (advance s) (result @ [c])
          else (result, s)
      | None \<Rightarrow> (result, s))"
  by pat_completeness auto
termination
  by (relation "measure (\<lambda>(s, r). lex_rest s)") (auto simp: lex_rest_advance)

declare identifier_loop.simps [simp del]

definition identifier_tok :: "Lexer \<Rightarrow> Token \<times> Lexer" where
  "identifier_tok s =
     (let ln = line s; col = column s;
          (result, s') = identifier_loop s [];
          token_type = keywords_get result IDENTIFIER
      in (mkToken token_type result ln col, s'))"

text \<open>\<open>number\<close>: the loop leaves at the second decimal point (\<open>break\<close>).\<close>

function number_loop :: "Lexer \<Rightarrow> string \<Rightarrow> bool \<Rightarrow> string \<times> bool \<times> Lexer" where
  "number_loop s result is_float =
     (case current_char s of
        Some c \<Rightarrow>
          if isdigit c \<or> c = CHR ''.'' then
            (if c = CHR ''.'' \<and> is_float then (result, is_float, s)
             else number_loop (advance s) (result @ [c]) (is_float \<or> c = CHR ''.''))
          else (result, is_float, s)
      | None \<Rightarrow> (result, is_float, s))"
  by pat_completeness auto
termination
  by (relation "measure (\<lambda>(s, r, f). lex_rest s)") (auto simp: lex_rest_advance)

declare number_loop.simps [simp del]

definition endswith_dot :: "string \<Rightarrow> bool" where
  "endswith_dot r = (r \<noteq> [] \<and> last r = CHR ''.'')"

definition number :: "Lexer \<Rightarrow> Token \<times> Lexer" where
  "number s =
     (let ln = line s; col = column s;
          (result, is_float, s') = number_loop s [] False;
          result' = (if endswith_dot result then result @ ''0'' else result);
          token_type = (if is_float then FLOAT else INTEGER)
      in (mkToken token_type result' ln col, s'))"

text \<open>\<open>escape_map\<close> of \<open>string\<close>, and \<open>escape_map.get(c, c)\<close>.\<close>

definition escape_map :: "(char \<times> char) list" where
  "escape_map =
     [(CHR ''n'', CHR 0x0A), (CHR ''t'', CHR 0x09), (CHR ''r'', CHR 0x0D),
      (CHR 0x5C, CHR 0x5C), (CHR 0x22, CHR 0x22), (CHR 0x27, CHR 0x27)]"

definition escape_map_get :: "char \<Rightarrow> char" where
  "escape_map_get c = (case map_of escape_map c of Some e \<Rightarrow> e | None \<Rightarrow> c)"

text \<open>
  The loop of \<open>string\<close>. After a backslash with a following character the lexer advances
  and reads \<open>current_char\<close>, which is then the character \<open>peek\<close> returned.
\<close>

function string_loop :: "Lexer \<Rightarrow> char \<Rightarrow> string \<Rightarrow> string \<times> Lexer" where
  "string_loop s quote result =
     (case current_char s of
        Some c \<Rightarrow>
          if c \<noteq> quote then
            (case (if c = CHR 0x5C then peek s else None) of
               Some e \<Rightarrow> string_loop (advance (advance s)) quote (result @ [escape_map_get e])
             | None \<Rightarrow> string_loop (advance s) quote (result @ [c]))
          else (result, s)
      | None \<Rightarrow> (result, s))"
  by pat_completeness auto
termination
  by (relation "measure (\<lambda>(s, q, r). lex_rest s)")
     (auto simp: lex_rest_advance lex_rest_advance2 split: if_splits)

declare string_loop.simps [simp del]

definition string_tok :: "Lexer \<Rightarrow> Token \<times> Lexer" where
  "string_tok s =
     (let ln = line s; col = column s;
          quote = (case current_char s of Some q \<Rightarrow> q | None \<Rightarrow> CHR 0x22);
          (result, s') = string_loop (advance s) quote []
      in if current_char s' = None then (mkToken ERROR result ln col, s')
         else (mkToken STRING result ln col, advance s'))"

text \<open>
  The \<open>if\<close>/\<open>elif\<close> chain of \<open>tokenize\<close> that recognises one token at the
  current character \<open>c\<close> (lines 189 to 287): the token appended and the lexer after it.
\<close>

definition identify_token :: "Lexer \<Rightarrow> char \<Rightarrow> Token \<times> Lexer" where
  "identify_token s c =
     (let ln = line s; col = column s in
      if isalpha c \<or> c = CHR ''_'' then identifier_tok s
      else if isdigit c then number s
      else if c = CHR 0x22 \<or> c = CHR 0x27 then string_tok s
      else if c = CHR ''+'' then (mkToken PLUS ''+'' ln col, advance s)
      else if c = CHR ''-'' then (mkToken MINUS ''-'' ln col, advance s)
      else if c = CHR ''*'' then (mkToken MULTIPLY ''*'' ln col, advance s)
      else if c = CHR ''/'' then (mkToken DIVIDE ''/'' ln col, advance s)
      else if c = CHR ''%'' then (mkToken MODULO ''%'' ln col, advance s)
      else if c = CHR ''='' then
        (if peek s = Some (CHR ''='') then (mkToken EQUALS ''=='' ln col, advance (advance s))
         else (mkToken ASSIGN ''='' ln col, advance s))
      else if c = CHR ''!'' then
        (if peek s = Some (CHR ''='') then (mkToken NOT_EQUALS ''!='' ln col, advance (advance s))
         else (mkToken NOT ''!'' ln col, advance s))
      else if c = CHR ''<'' then
        (if peek s = Some (CHR ''='') then (mkToken LESS_EQUAL ''<='' ln col, advance (advance s))
         else (mkToken LESS_THAN ''<'' ln col, advance s))
      else if c = CHR ''>'' then
        (if peek s = Some (CHR ''='') then
           (mkToken GREATER_EQUAL ''>='' ln col, advance (advance s))
         else (mkToken GREATER_THAN ''>'' ln col, advance s))
      else if c = CHR ''&'' \<and> peek s = Some (CHR ''&'') then
        (mkToken AND ''&&'' ln col, advance (advance s))
      else if c = CHR ''|'' \<and> peek s = Some (CHR ''|'') then
        (mkToken OR ''||'' ln col, advance (advance s))
      else if c = CHR ''('' then (mkToken LPAREN ''('' ln col, advance s)
      else if c = CHR '')'' then (mkToken RPAREN '')'' ln col, advance s)
      else if c = CHR ''{'' then (mkToken LBRACE ''{'' ln col, advance s)
      else if c = CHR ''}'' then (mkToken RBRACE ''}'' ln col, advance s)
      else if c = CHR ''['' then (mkToken LBRACKET ''['' ln col, advance s)
      else if c = CHR '']'' then (mkToken RBRACKET '']'' ln col, advance s)
      else if c = CHR '','' then (mkToken COMMA '','' ln col, advance s)
      else if c = CHR ''.'' then (mkToken DOT ''.'' ln col, advance s)
      else if c = CHR '';'' then (mkToken SEMICOLON '';'' ln col, advance s)
      else if c = CHR '':'' then (mkToken COLON '':'' ln col, advance s)
      else (mkToken ERROR [c] ln col, advance s))"

subsection \<open>Every branch of the scan consumes input\<close>

lemma isalpha_isalnum: "isalpha c \<Longrightarrow> isalnum c"
  by (simp add: isalnum_def)

lemma skip_whitespace_rest: "lex_rest (skip_whitespace s) \<le> lex_rest s"
proof (induction s rule: skip_whitespace.induct)
  case (1 s)
  show ?case
  proof (cases "current_char s")
    case None
    then show ?thesis by (subst skip_whitespace.simps) simp
  next
    case (Some c)
    show ?thesis
    proof (cases "isspace c")
      case True
      have "lex_rest (skip_whitespace (advance s)) \<le> lex_rest (advance s)"
        using 1 Some True by simp
      also have "\<dots> < lex_rest s" using Some by (rule lex_rest_advance)
      finally show ?thesis using Some True by (subst skip_whitespace.simps) simp
    next
      case False
      then show ?thesis using Some by (subst skip_whitespace.simps) simp
    qed
  qed
qed

lemma line_comment_loop_rest: "lex_rest (line_comment_loop s) \<le> lex_rest s"
proof (induction s rule: line_comment_loop.induct)
  case (1 s)
  show ?case
  proof (cases "current_char s")
    case None
    then show ?thesis by (subst line_comment_loop.simps) simp
  next
    case (Some c)
    show ?thesis
    proof (cases "c = CHR 0x0A")
      case True
      then show ?thesis using Some by (subst line_comment_loop.simps) simp
    next
      case False
      have "lex_rest (line_comment_loop (advance s)) \<le> lex_rest (advance s)"
        using 1 Some False by simp
      also have "\<dots> < lex_rest s" using Some by (rule lex_rest_advance)
      finally show ?thesis using Some False by (subst line_comment_loop.simps) simp
    qed
  qed
qed

lemma block_comment_loop_rest: "lex_rest (block_comment_loop s) \<le> lex_rest s"
proof (induction s rule: block_comment_loop.induct)
  case (1 s)
  show ?case
  proof (cases "current_char s")
    case None
    then show ?thesis by (subst block_comment_loop.simps) simp
  next
    case (Some c)
    show ?thesis
    proof (cases "c = CHR ''*'' \<and> peek s = Some (CHR ''/'')")
      case True
      then show ?thesis using Some lex_rest_advance2 [OF Some] by (subst block_comment_loop.simps) simp
    next
      case False
      have "lex_rest (block_comment_loop (advance s)) \<le> lex_rest (advance s)"
        using 1 Some False by simp
      also have "\<dots> < lex_rest s" using Some by (rule lex_rest_advance)
      finally show ?thesis using Some False by (subst block_comment_loop.simps) auto
    qed
  qed
qed

lemma identifier_loop_rest: "lex_rest (snd (identifier_loop s r)) \<le> lex_rest s"
proof (induction s r rule: identifier_loop.induct)
  case (1 s r)
  show ?case
  proof (cases "current_char s")
    case None
    then show ?thesis by (subst identifier_loop.simps) simp
  next
    case (Some c)
    show ?thesis
    proof (cases "isalnum c \<or> c = CHR ''_''")
      case True
      have "lex_rest (snd (identifier_loop (advance s) (r @ [c]))) \<le> lex_rest (advance s)"
        using 1 Some True by simp
      also have "\<dots> < lex_rest s" using Some by (rule lex_rest_advance)
      finally show ?thesis using Some True by (subst identifier_loop.simps) simp
    next
      case False
      then show ?thesis using Some by (subst identifier_loop.simps) simp
    qed
  qed
qed

lemma number_loop_rest: "lex_rest (snd (snd (number_loop s r f))) \<le> lex_rest s"
proof (induction s r f rule: number_loop.induct)
  case (1 s r f)
  show ?case
  proof (cases "current_char s")
    case None
    then show ?thesis by (subst number_loop.simps) simp
  next
    case (Some c)
    show ?thesis
    proof (cases "(isdigit c \<or> c = CHR ''.'') \<and> \<not> (c = CHR ''.'' \<and> f)")
      case True
      have "lex_rest (snd (snd (number_loop (advance s) (r @ [c]) (f \<or> c = CHR ''.''))))
              \<le> lex_rest (advance s)"
        using 1 Some True by simp
      also have "\<dots> < lex_rest s" using Some by (rule lex_rest_advance)
      finally show ?thesis using Some True by (subst number_loop.simps) auto
    next
      case False
      then show ?thesis using Some by (subst number_loop.simps) auto
    qed
  qed
qed

lemma string_loop_rest: "lex_rest (snd (string_loop s q r)) \<le> lex_rest s"
proof (induction s q r rule: string_loop.induct)
  case (1 s q r)
  show ?case
  proof (cases "current_char s")
    case None
    then show ?thesis by (subst string_loop.simps) simp
  next
    case (Some c)
    show ?thesis
    proof (cases "c = q")
      case True
      then show ?thesis using Some by (subst string_loop.simps) simp
    next
      case False
      show ?thesis
      proof (cases "if c = CHR 0x5C then peek s else None")
        case None
        have "lex_rest (snd (string_loop (advance s) q (r @ [c]))) \<le> lex_rest (advance s)"
          using 1 Some False None by simp
        also have "\<dots> < lex_rest s" using Some by (rule lex_rest_advance)
        finally show ?thesis using Some False None by (subst string_loop.simps) simp
      next
        case (Some e)
        have "lex_rest (snd (string_loop (advance (advance s)) q (r @ [escape_map_get e])))
                \<le> lex_rest (advance (advance s))"
          using 1 \<open>current_char s = Some c\<close> False Some by simp
        also have "\<dots> < lex_rest s"
          using \<open>current_char s = Some c\<close> by (rule lex_rest_advance2)
        finally show ?thesis using \<open>current_char s = Some c\<close> False Some by (subst string_loop.simps) simp
      qed
    qed
  qed
qed

lemma identifier_tok_rest:
  assumes "current_char s = Some c" and "isalpha c \<or> c = CHR ''_''"
  shows "lex_rest (snd (identifier_tok s)) < lex_rest s"
proof -
  have step: "identifier_loop s [] = identifier_loop (advance s) [c]"
    using assms by (subst identifier_loop.simps) (auto simp: isalpha_isalnum)
  have "lex_rest (snd (identifier_loop (advance s) [c])) \<le> lex_rest (advance s)"
    by (rule identifier_loop_rest)
  also have "\<dots> < lex_rest s" using assms(1) by (rule lex_rest_advance)
  finally show ?thesis
    by (simp add: identifier_tok_def step case_prod_beta Let_def)
qed

lemma number_rest:
  assumes "current_char s = Some c" and "isdigit c"
  shows "lex_rest (snd (number s)) < lex_rest s"
proof -
  have step: "number_loop s [] False = number_loop (advance s) [c] (c = CHR ''.'')"
    using assms by (subst number_loop.simps) auto
  have "lex_rest (snd (snd (number_loop (advance s) [c] (c = CHR ''.'')))) \<le> lex_rest (advance s)"
    by (rule number_loop_rest)
  also have "\<dots> < lex_rest s" using assms(1) by (rule lex_rest_advance)
  finally show ?thesis
    by (simp add: number_def step case_prod_beta Let_def)
qed

lemma lex_rest_advance_le: "current_char s = Some c \<Longrightarrow> lex_rest (advance s) \<le> lex_rest s"
  using lex_rest_advance [of s c] by simp

lemma lex_rest_advance_None: "current_char s = None \<Longrightarrow> lex_rest s = 0"
  by (simp add: lex_rest_def)

lemma string_tok_rest:
  assumes "current_char s = Some c"
  shows "lex_rest (snd (string_tok s)) < lex_rest s"
proof -
  obtain r s' where loop: "string_loop (advance s) c [] = (r, s')"
    by (cases "string_loop (advance s) c []")
  have le: "lex_rest s' \<le> lex_rest (advance s)"
    using string_loop_rest [of "advance s" c "[]"] loop by simp
  have lt: "lex_rest (advance s) < lex_rest s" using assms by (rule lex_rest_advance)
  show ?thesis
  proof (cases "current_char s'")
    case None
    then show ?thesis using assms loop le lt by (simp add: string_tok_def Let_def)
  next
    case (Some d)
    have "lex_rest (advance s') \<le> lex_rest s'" using Some by (rule lex_rest_advance_le)
    then show ?thesis using assms loop le lt Some by (simp add: string_tok_def Let_def)
  qed
qed

lemma identify_token_rest:
  assumes "current_char s = Some c"
  shows "lex_rest (snd (identify_token s c)) < lex_rest s"
  using assms identifier_tok_rest [of s c] number_rest [of s c] string_tok_rest [of s c]
    lex_rest_advance [of s c] lex_rest_advance2 [of s c]
  by (auto simp: identify_token_def Let_def)

lemma skip_comment_rest:
  assumes "current_char s = Some (CHR ''/'')"
    and "peek s = Some (CHR ''/'') \<or> peek s = Some (CHR ''*'')"
  shows "lex_rest (skip_comment s) < lex_rest s"
proof (cases "peek s = Some (CHR ''/'')")
  case True
  have "line_comment_loop s = line_comment_loop (advance s)"
    using assms(1) by (subst line_comment_loop.simps) simp
  moreover have "lex_rest (line_comment_loop (advance s)) \<le> lex_rest (advance s)"
    by (rule line_comment_loop_rest)
  moreover have "lex_rest (advance s) < lex_rest s" using assms(1) by (rule lex_rest_advance)
  ultimately show ?thesis using assms(1) True by (simp add: skip_comment_def)
next
  case False
  then have star: "peek s = Some (CHR ''*'')" using assms(2) by simp
  have "lex_rest (block_comment_loop (advance (advance s))) \<le> lex_rest (advance (advance s))"
    by (rule block_comment_loop_rest)
  moreover have "lex_rest (advance (advance s)) < lex_rest s"
    using assms(1) by (rule lex_rest_advance2)
  ultimately show ?thesis using assms(1) star by (simp add: skip_comment_def)
qed

lemma skip_whitespace_rest_less:
  assumes "current_char s = Some c" and "isspace c"
  shows "lex_rest (skip_whitespace s) < lex_rest s"
proof -
  have "skip_whitespace s = skip_whitespace (advance s)"
    using assms by (subst skip_whitespace.simps) simp
  moreover have "lex_rest (skip_whitespace (advance s)) \<le> lex_rest (advance s)"
    by (rule skip_whitespace_rest)
  moreover have "lex_rest (advance s) < lex_rest s" using assms(1) by (rule lex_rest_advance)
  ultimately show ?thesis by simp
qed

subsection \<open>tokenize\<close>

text \<open>The \<open>while\<close> loop of \<open>tokenize\<close>: the tokens so far and the lexer.\<close>

function tokenize_loop :: "Lexer \<Rightarrow> Token list \<Rightarrow> Token list \<times> Lexer" where
  "tokenize_loop s tokens =
     (case current_char s of
        None \<Rightarrow> (tokens, s)
      | Some c \<Rightarrow>
          if isspace c then tokenize_loop (skip_whitespace s) tokens
          else if c = CHR ''/'' \<and> (peek s = Some (CHR ''/'') \<or> peek s = Some (CHR ''*''))
            then tokenize_loop (skip_comment s) tokens
          else tokenize_loop (snd (identify_token s c)) (tokens @ [fst (identify_token s c)]))"
  by pat_completeness auto
termination
  by (relation "measure (\<lambda>(s, t). lex_rest s)")
     (auto simp: skip_whitespace_rest_less skip_comment_rest identify_token_rest)

declare tokenize_loop.simps [simp del]

definition tokenize :: "Lexer \<Rightarrow> Token list" where
  "tokenize s =
     (let (tokens, s') = tokenize_loop s []
      in tokens @ [mkToken EOF [] (line s') (column s')])"

section \<open>Abstract syntax (parser/ast.py)\<close>

text \<open>
  Every node class is a constructor with the fields of the dataclass in their order. The
  class \<open>Identifier\<close> is the type \<open>ident\<close>; as an expression it is wrapped in the
  constructor \<open>Identifier\<close>. The value of a \<open>FloatLiteral\<close> is kept as the decimal text
  that was given to \<open>float\<close>; no analysis reads it.
\<close>

datatype ident = Ident (id_name: string) (id_line: int) (id_column: int)

datatype expr =
    Identifier ident
  | IntegerLiteral int int int
  | FloatLiteral string int int
  | StringLiteral string int int
  | BooleanLiteral bool int int
  | BinaryExpression expr string expr int int
  | UnaryExpression string expr int int
  | CallExpression expr "expr list" int int
  | AssignmentExpression expr expr int int
  | ArrayLiteral "expr list" int int
  | IndexExpression expr expr int int

datatype Parameter = Parameter (param_name: ident) (param_type_annotation: string)

text \<open>
  The initializer of a \<open>ForStatement\<close> is a declaration (\<open>Inl\<close>) or an expression
  (\<open>Inr\<close>).
\<close>

datatype stmt =
    VariableDeclaration ident "string option" "expr option" int int
  | FunctionDeclaration ident "Parameter list" string "stmt list" int int
  | ReturnStatement "expr option" int int
  | BlockStatement "stmt list" int int
  | IfStatement expr stmt "stmt option" int int
  | WhileStatement expr stmt int int
  | ForStatement "(stmt + expr) option" "expr option" "expr option" stmt int int
  | ExpressionStatement expr int int

datatype Program = Program (statements: "stmt list")

text \<open>The attributes \<open>line\<close> and \<open>column\<close> of an expression node.\<close>

fun expr_line :: "expr \<Rightarrow> int" where
  "expr_line (Identifier i) = id_line i"
| "expr_line (IntegerLiteral v l c) = l"
| "expr_line (FloatLiteral v l c) = l"
| "expr_line (StringLiteral v l c) = l"
| "expr_line (BooleanLiteral v l c) = l"
| "expr_line (BinaryExpression a opr b l c) = l"
| "expr_line (UnaryExpression opr a l c) = l"
| "expr_line (CallExpression f args l c) = l"
| "expr_line (AssignmentExpression t v l c) = l"
| "expr_line (ArrayLiteral es l c) = l"
| "expr_line (IndexExpression a i l c) = l"

fun expr_column :: "expr \<Rightarrow> int" where
  "expr_column (Identifier i) = id_column i"
| "expr_column (IntegerLiteral v l c) = c"
| "expr_column (FloatLiteral v l c) = c"
| "expr_column (StringLiteral v l c) = c"
| "expr_column (BooleanLiteral v l c) = c"
| "expr_column (BinaryExpression a opr b l c) = c"
| "expr_column (UnaryExpression opr a l c) = c"
| "expr_column (CallExpression f args l c) = c"
| "expr_column (AssignmentExpression t v l c) = c"
| "expr_column (ArrayLiteral es l c) = c"
| "expr_column (IndexExpression a i l c) = c"

section \<open>Parser (parser/parser.py)\<close>

text \<open>
  The exceptions that can leave a parser method: the parser's own \<open>ParseError\<close> with its
  token and message, \<open>IndexError\<close> of a list access out of range and \<open>ValueError\<close> of
  \<open>int\<close> and \<open>float\<close>. A method returns its result or the exception raised, together
  with the parser as the method left it. \<open>RecursionError\<close> is the exception of a call
  that the interpreter's stack does not admit; it is raised in the walks of the analyzers
  under a recursion limit, below.
\<close>

datatype exn = ParseError Token string | IndexError | ValueError | RecursionError

record Parser =
  tokens :: "Token list"
  current :: nat
  parse_errors :: "(Token \<times> string) list"

definition Parser_init :: "string \<Rightarrow> Parser" where
  "Parser_init src = \<lparr>tokens = tokenize (Lexer_init src), current = 0, parse_errors = []\<rparr>"

text \<open>
  \<open>int(token.value)\<close> and \<open>float(token.value)\<close> on the text of a number token, which
  has no sign, blank or underscore: the text converts when its digits are decimal digits,
  and \<open>ValueError\<close> is raised otherwise.
\<close>

definition digit_value :: "char \<Rightarrow> int" where
  "digit_value c = int (of_char c) - 48"

definition py_int :: "string \<Rightarrow> exn + int" where
  "py_int v =
     (if v \<noteq> [] \<and> list_all isdecimal v
      then Inr (foldl (\<lambda>n c. 10 * n + digit_value c) 0 v)
      else Inl ValueError)"

definition py_float :: "string \<Rightarrow> exn + string" where
  "py_float v =
     (if list_all (\<lambda>c. isdecimal c \<or> c = CHR ''.'') v \<and> length (filter (\<lambda>c. c = CHR ''.'') v) \<le> 1
         \<and> list_ex isdecimal v
      then Inr v
      else Inl ValueError)"

text \<open>\<open>peek\<close>: \<open>self.tokens[self.current]\<close>\<close>

definition peek_token :: "Parser \<Rightarrow> exn + Token" where
  "peek_token p =
     (if current p < length (tokens p) then Inr (tokens p ! current p) else Inl IndexError)"

text \<open>
  \<open>previous\<close>: \<open>self.tokens[self.current - 1]\<close>; at \<open>current = 0\<close> the index is \<open>-1\<close>,
  the last token.
\<close>

definition previous :: "Parser \<Rightarrow> exn + Token" where
  "previous p =
     (if current p = 0 then (if tokens p = [] then Inl IndexError else Inr (last (tokens p)))
      else if current p - 1 < length (tokens p) then Inr (tokens p ! (current p - 1))
      else Inl IndexError)"

definition is_at_end :: "Parser \<Rightarrow> exn + bool" where
  "is_at_end p = (case peek_token p of Inl e \<Rightarrow> Inl e | Inr t \<Rightarrow> Inr (tok_type t = EOF))"

definition advance_token :: "Parser \<Rightarrow> (exn + Token) \<times> Parser" where
  "advance_token p =
     (case is_at_end p of
        Inl e \<Rightarrow> (Inl e, p)
      | Inr at_end \<Rightarrow>
          (let p' = (if \<not> at_end then p\<lparr>current := current p + 1\<rparr> else p)
           in (previous p', p')))"

definition check :: "Parser \<Rightarrow> TokenType \<Rightarrow> exn + bool" where
  "check p ty =
     (case is_at_end p of
        Inl e \<Rightarrow> Inl e
      | Inr at_end \<Rightarrow>
          if at_end then Inr False
          else (case peek_token p of Inl e \<Rightarrow> Inl e | Inr t \<Rightarrow> Inr (tok_type t = ty)))"

definition consume :: "Parser \<Rightarrow> TokenType \<Rightarrow> string \<Rightarrow> (exn + Token) \<times> Parser" where
  "consume p ty message =
     (case check p ty of
        Inl e \<Rightarrow> (Inl e, p)
      | Inr ok \<Rightarrow>
          if ok then advance_token p
          else (case peek_token p of
                  Inl e \<Rightarrow> (Inl e, p)
                | Inr t \<Rightarrow> (Inl (ParseError t message), p)))"

lemma advance_token_tokens: "tokens (snd (advance_token p)) = tokens p"
  by (simp add: advance_token_def Let_def split: sum.splits)

lemma advance_token_current_le: "current p \<le> current (snd (advance_token p))"
  by (simp add: advance_token_def Let_def split: sum.splits)

lemma advance_token_not_at_end:
  "is_at_end p = Inr False \<Longrightarrow> current (snd (advance_token p)) = current p + 1"
  by (simp add: advance_token_def Let_def)

lemma is_at_end_in_range: "is_at_end p = Inr b \<Longrightarrow> current p < length (tokens p)"
  by (simp add: is_at_end_def peek_token_def split: if_splits)

lemma consume_tokens: "tokens (snd (consume p ty m)) = tokens p"
  by (simp add: consume_def advance_token_tokens split: sum.splits)

lemma consume_current_le: "current p \<le> current (snd (consume p ty m))"
  by (simp add: consume_def advance_token_current_le split: sum.splits)

text \<open>
  \<open>primary\<close>, and \<open>expression\<close>, which the source leaves as a call of \<open>primary\<close>.
\<close>

function primary :: "Parser \<Rightarrow> (exn + expr) \<times> Parser"
  and expression :: "Parser \<Rightarrow> (exn + expr) \<times> Parser" where
  "primary p =
     (case peek_token p of
        Inl e \<Rightarrow> (Inl e, p)
      | Inr token \<Rightarrow>
          if tok_type token = INTEGER then
            (case advance_token p of
               (Inl e, p1) \<Rightarrow> (Inl e, p1)
             | (Inr _, p1) \<Rightarrow>
                 (case py_int (tok_value token) of
                    Inl e \<Rightarrow> (Inl e, p1)
                  | Inr n \<Rightarrow> (Inr (IntegerLiteral n (tok_line token) (tok_column token)), p1)))
          else if tok_type token = FLOAT then
            (case advance_token p of
               (Inl e, p1) \<Rightarrow> (Inl e, p1)
             | (Inr _, p1) \<Rightarrow>
                 (case py_float (tok_value token) of
                    Inl e \<Rightarrow> (Inl e, p1)
                  | Inr x \<Rightarrow> (Inr (FloatLiteral x (tok_line token) (tok_column token)), p1)))
          else if tok_type token = STRING then
            (case advance_token p of
               (Inl e, p1) \<Rightarrow> (Inl e, p1)
             | (Inr _, p1) \<Rightarrow>
                 (Inr (StringLiteral (tok_value token) (tok_line token) (tok_column token)), p1))
          else if tok_type token = IDENTIFIER then
            (case advance_token p of
               (Inl e, p1) \<Rightarrow> (Inl e, p1)
             | (Inr _, p1) \<Rightarrow>
                 (Inr (Identifier (Ident (tok_value token) (tok_line token) (tok_column token))),
                  p1))
          else if tok_type token = LPAREN then
            (case advance_token p of
               (Inl e, p1) \<Rightarrow> (Inl e, p1)
             | (Inr _, p1) \<Rightarrow>
                 (case expression p1 of
                    (Inl e, p2) \<Rightarrow> (Inl e, p2)
                  | (Inr ex, p2) \<Rightarrow>
                      (case consume p2 RPAREN (''Expected '' @ quoted '')'' @ '' after expression.'') of
                         (Inl e, p3) \<Rightarrow> (Inl e, p3)
                       | (Inr _, p3) \<Rightarrow> (Inr ex, p3))))
          else
            (case advance_token p of
               (Inl e, p1) \<Rightarrow> (Inl e, p1)
             | (Inr _, p1) \<Rightarrow>
                 (Inl (ParseError token (''Unexpected token: '' @ tok_value token)), p1)))"
| "expression p = primary p"
  by pat_completeness auto
termination
proof (relation "measure (\<lambda>x. case x of
          Inl p \<Rightarrow> 2 * (length (tokens p) - current p)
        | Inr p \<Rightarrow> 2 * (length (tokens p) - current p) + 1)", goal_cases)
  case 1
  show ?case by simp
next
  case (2 p token x p1 y)
  have adv: "advance_token p = (Inr y, p1)" using 2 by simp
  have "is_at_end p = Inr False"
    using 2 by (simp add: is_at_end_def)
  then have "current p1 = current p + 1" and "current p < length (tokens p)"
    using adv advance_token_not_at_end [of p] is_at_end_in_range [of p False] by simp_all
  moreover have "tokens p1 = tokens p"
    using adv advance_token_tokens [of p] by simp
  ultimately show ?case by simp
next
  case (3 p)
  show ?case by simp
qed

declare primary.simps [simp del]

lemma advance_tokenD:
  "advance_token p = (r, p1) \<Longrightarrow> tokens p1 = tokens p \<and> current p \<le> current p1"
  using advance_token_tokens [of p] advance_token_current_le [of p] by simp

lemma consumeD:
  "consume p ty m = (r, p1) \<Longrightarrow> tokens p1 = tokens p \<and> current p \<le> current p1"
  using consume_tokens [of p ty m] consume_current_le [of p ty m] by simp

lemma primary_frame:
  "tokens (snd (primary p)) = tokens p \<and> current p \<le> current (snd (primary p))"
  "tokens (snd (expression p)) = tokens p \<and> current p \<le> current (snd (expression p))"
proof (induction p and p rule: primary_expression.induct)
  case (1 p)
  show ?case
  proof (cases "peek_token p")
    case (Inl e)
    then show ?thesis by (subst (1 2) primary.simps) simp
  next
    case (Inr token)
    obtain r p1 where adv: "advance_token p = (r, p1)" by (cases "advance_token p")
    note f1 = advance_tokenD [OF adv]
    show ?thesis
    proof (cases "tok_type token = LPAREN")
      case False
      then show ?thesis
        using Inr adv f1 by (subst (1 2) primary.simps) (auto split: sum.splits)
    next
      case True
      show ?thesis
      proof (cases r)
        case (Inl e)
        then show ?thesis
          using Inr adv f1 True by (subst (1 2) primary.simps) simp
      next
        case (Inr y)
        have ih: "tokens (snd (expression p1)) = tokens p1
                    \<and> current p1 \<le> current (snd (expression p1))"
          using 1 [OF \<open>peek_token p = Inr token\<close>] True adv Inr by simp
        obtain r2 p2 where ex: "expression p1 = (r2, p2)" by (cases "expression p1")
        obtain r3 p3 where co:
          "consume p2 RPAREN (''Expected '' @ quoted '')'' @ '' after expression.'') = (r3, p3)"
          by (cases "consume p2 RPAREN (''Expected '' @ quoted '')'' @ '' after expression.'')")
        note f3 = consumeD [OF co]
        show ?thesis
          using \<open>peek_token p = Inr token\<close> adv f1 True Inr ih ex co f3
          by (subst (1 2) primary.simps) (auto split: sum.splits)
      qed
    qed
  qed
next
  case (2 p)
  then show ?case by simp
qed

lemma primary_progress:
  assumes "is_at_end p = Inr False"
  shows "current p < current (snd (primary p))"
proof -
  obtain token where pk: "peek_token p = Inr token" and ne: "tok_type token \<noteq> EOF"
    using assms by (auto simp: is_at_end_def split: sum.splits)
  obtain r p1 where adv: "advance_token p = (r, p1)" by (cases "advance_token p")
  have c1: "current p1 = current p + 1"
    using advance_token_not_at_end [OF assms] adv by simp
  show ?thesis
  proof (cases "tok_type token = LPAREN")
    case False
    then show ?thesis
      using pk adv c1 by (subst primary.simps) (auto split: sum.splits)
  next
    case True
    obtain r2 p2 where ex: "expression p1 = (r2, p2)" by (cases "expression p1")
    have c2: "current p1 \<le> current p2" using primary_frame(2) [of p1] ex by simp
    obtain r3 p3 where co:
      "consume p2 RPAREN (''Expected '' @ quoted '')'' @ '' after expression.'') = (r3, p3)"
      by (cases "consume p2 RPAREN (''Expected '' @ quoted '')'' @ '' after expression.'')")
    note f3 = consumeD [OF co]
    show ?thesis
      using pk adv c1 True ex c2 co f3
      by (subst primary.simps) (auto split: sum.splits)
  qed
qed

definition expression_statement :: "Parser \<Rightarrow> (exn + stmt) \<times> Parser" where
  "expression_statement p =
     (case expression p of
        (Inl e, p1) \<Rightarrow> (Inl e, p1)
      | (Inr ex, p1) \<Rightarrow>
          (case consume p1 SEMICOLON (''Expected '' @ quoted '';'' @ '' after expression.'') of
             (Inl e, p2) \<Rightarrow> (Inl e, p2)
           | (Inr _, p2) \<Rightarrow> (Inr (ExpressionStatement ex (expr_line ex) (expr_column ex)), p2)))"

text \<open>The methods \<open>statement\<close> and \<open>declaration\<close>.\<close>

definition parse_statement :: "Parser \<Rightarrow> (exn + stmt) \<times> Parser" where
  "parse_statement p = expression_statement p"

definition parse_declaration :: "Parser \<Rightarrow> (exn + stmt) \<times> Parser" where
  "parse_declaration p = parse_statement p"

text \<open>The \<open>while\<close> loop of \<open>synchronize\<close>, entered after its first \<open>advance\<close>.\<close>

function synchronize_loop :: "Parser \<Rightarrow> (exn + unit) \<times> Parser" where
  "synchronize_loop p =
     (case is_at_end p of
        Inl e \<Rightarrow> (Inl e, p)
      | Inr at_end \<Rightarrow>
          if at_end then (Inr (), p)
          else
            (case previous p of
               Inl e \<Rightarrow> (Inl e, p)
             | Inr prev \<Rightarrow>
                 if tok_type prev = SEMICOLON then (Inr (), p)
                 else
                   (case peek_token p of
                      Inl e \<Rightarrow> (Inl e, p)
                    | Inr t \<Rightarrow>
                        if tok_type t \<in> set [FUNCTION, SPELL, IF, WHILE, FOR, RETURN]
                        then (Inr (), p)
                        else
                          (case advance_token p of
                             (Inl e, p1) \<Rightarrow> (Inl e, p1)
                           | (Inr _, p1) \<Rightarrow> synchronize_loop p1))))"
  by pat_completeness auto
termination
proof (relation "measure (\<lambda>p. length (tokens p) - current p)", goal_cases)
  case 1
  show ?case by simp
next
  case (2 p at_end prev t x p1 y)
  have adv: "advance_token p = (Inr y, p1)" using 2 by simp
  have "is_at_end p = Inr False" using 2 by simp
  then have "current p1 = current p + 1" and "current p < length (tokens p)"
    using adv advance_token_not_at_end [of p] is_at_end_in_range [of p False] by simp_all
  moreover have "tokens p1 = tokens p"
    using adv advance_token_tokens [of p] by simp
  ultimately show ?case by simp
qed

declare synchronize_loop.simps [simp del]

definition synchronize :: "Parser \<Rightarrow> (exn + unit) \<times> Parser" where
  "synchronize p =
     (case advance_token p of
        (Inl e, p1) \<Rightarrow> (Inl e, p1)
      | (Inr _, p1) \<Rightarrow> synchronize_loop p1)"

lemma parse_declaration_frame:
  "tokens (snd (parse_declaration p)) = tokens p
     \<and> current p \<le> current (snd (parse_declaration p))"
proof -
  obtain r1 p1 where ex: "expression p = (r1, p1)" by (cases "expression p")
  have f1: "tokens p1 = tokens p \<and> current p \<le> current p1"
    using primary_frame(2) [of p] ex by simp
  obtain r2 p2 where co:
    "consume p1 SEMICOLON (''Expected '' @ quoted '';'' @ '' after expression.'') = (r2, p2)"
    by (cases "consume p1 SEMICOLON (''Expected '' @ quoted '';'' @ '' after expression.'')")
  note f2 = consumeD [OF co]
  show ?thesis
    using ex f1 co f2
    by (auto simp: parse_declaration_def parse_statement_def expression_statement_def
          split: sum.splits)
qed

lemma parse_declaration_progress:
  assumes "is_at_end p = Inr False"
  shows "current p < current (snd (parse_declaration p))"
proof -
  obtain r1 p1 where ex: "expression p = (r1, p1)" by (cases "expression p")
  have f1: "current p < current p1"
    using primary_progress [OF assms] ex by simp
  obtain r2 p2 where co:
    "consume p1 SEMICOLON (''Expected '' @ quoted '';'' @ '' after expression.'') = (r2, p2)"
    by (cases "consume p1 SEMICOLON (''Expected '' @ quoted '';'' @ '' after expression.'')")
  note f2 = consumeD [OF co]
  show ?thesis
    using ex f1 co f2
    by (auto simp: parse_declaration_def parse_statement_def expression_statement_def
          split: sum.splits)
qed

lemma synchronize_loop_frame:
  "tokens (snd (synchronize_loop p)) = tokens p
     \<and> current p \<le> current (snd (synchronize_loop p))"
proof (induction p rule: synchronize_loop.induct)
  case (1 p)
  obtain r p1 where adv: "advance_token p = (r, p1)" by (cases "advance_token p")
  note f1 = advance_tokenD [OF adv]
  show ?case
  proof (cases "\<exists>prev t y. is_at_end p = Inr False \<and> previous p = Inr prev
            \<and> tok_type prev \<noteq> SEMICOLON \<and> peek_token p = Inr t
            \<and> tok_type t \<notin> set [FUNCTION, SPELL, IF, WHILE, FOR, RETURN] \<and> r = Inr y")
    case True
    then obtain prev t y where c: "is_at_end p = Inr False" "previous p = Inr prev"
      "tok_type prev \<noteq> SEMICOLON" "peek_token p = Inr t"
      "tok_type t \<notin> set [FUNCTION, SPELL, IF, WHILE, FOR, RETURN]" "r = Inr y"
      by blast
    have ih: "tokens (snd (synchronize_loop p1)) = tokens p1
                \<and> current p1 \<le> current (snd (synchronize_loop p1))"
      using 1 [OF c(1) _ c(2) c(3) c(4) c(5), of "Inr y" p1 y] adv c(6) by simp
    have "synchronize_loop p = synchronize_loop p1"
      using c adv by (subst synchronize_loop.simps) simp
    then show ?thesis using ih f1 by simp
  next
    case False
    then show ?thesis
      using adv f1 by (subst (1 2) synchronize_loop.simps) (auto split: sum.splits)
  qed
qed

lemma synchronize_frame:
  "tokens (snd (synchronize p)) = tokens p \<and> current p \<le> current (snd (synchronize p))"
proof -
  obtain r p1 where adv: "advance_token p = (r, p1)" by (cases "advance_token p")
  note f1 = advance_tokenD [OF adv]
  show ?thesis
    using adv f1 synchronize_loop_frame [of p1]
    by (auto simp: synchronize_def split: sum.splits)
qed

lemma parse_declaration_step:
  assumes "is_at_end p = Inr False" and "(r, p1) = parse_declaration p"
  shows "length (tokens p1) - current p1 < length (tokens p) - current p"
proof -
  have "current p < current p1" "tokens p1 = tokens p"
    using parse_declaration_progress [OF assms(1)] parse_declaration_frame [of p]
      assms(2) [symmetric] by simp_all
  then show ?thesis using is_at_end_in_range [OF assms(1)] by simp
qed

lemma parse_recover_step:
  assumes "is_at_end p = Inr False" and "(r, p1) = parse_declaration p"
    and "(r2, p2) = synchronize (p1\<lparr>parse_errors := es\<rparr>)"
  shows "length (tokens p2) - current p2 < length (tokens p) - current p"
proof -
  have "current p < current p1" "tokens p1 = tokens p"
    using parse_declaration_progress [OF assms(1)] parse_declaration_frame [of p]
      assms(2) [symmetric] by simp_all
  moreover have "current p1 \<le> current p2" "tokens p2 = tokens p1"
    using synchronize_frame [of "p1\<lparr>parse_errors := es\<rparr>"] assms(3) [symmetric]
    by simp_all
  ultimately show ?thesis using is_at_end_in_range [OF assms(1)] by simp
qed

text \<open>
  The \<open>while\<close> loop of \<open>parse\<close>. Only \<open>ParseError\<close> is caught; any other exception
  leaves the loop and the method.
\<close>

function parse_loop :: "Parser \<Rightarrow> stmt list \<Rightarrow> (exn + stmt list) \<times> Parser" where
  "parse_loop p stmts =
     (case is_at_end p of
        Inl e \<Rightarrow> (Inl e, p)
      | Inr at_end \<Rightarrow>
          if at_end then (Inr stmts, p)
          else
            (case parse_declaration p of
               (Inr st, p1) \<Rightarrow> parse_loop p1 (stmts @ [st])
             | (Inl (ParseError t m), p1) \<Rightarrow>
                 (case synchronize (p1\<lparr>parse_errors := parse_errors p1 @ [(t, m)]\<rparr>) of
                    (Inl e, p2) \<Rightarrow> (Inl e, p2)
                  | (Inr _, p2) \<Rightarrow> parse_loop p2 stmts)
             | (Inl e, p1) \<Rightarrow> (Inl e, p1)))"
  by pat_completeness auto
termination
proof (relation "measure (\<lambda>(p, stmts). length (tokens p) - current p)", goal_cases)
  case 1
  show ?case by simp
next
  case (2 p stmts b x y a x11 x12 xa ya ba)
  have "is_at_end p = Inr False" using 2 by simp
  then show ?case
    using parse_recover_step [of p x y xa ya "parse_errors y @ [(x11, x12)]"] 2 by simp
next
  case (3 p stmts b x y ba)
  have "is_at_end p = Inr False" using 3 by simp
  then show ?case
    using parse_declaration_step [of p x y] 3 by simp
qed

declare parse_loop.simps [simp del]

definition parse :: "Parser \<Rightarrow> (exn + Program) \<times> Parser" where
  "parse p =
     (case parse_loop p [] of
        (Inl e, p1) \<Rightarrow> (Inl e, p1)
      | (Inr stmts, p1) \<Rightarrow> (Inr (Program stmts), p1))"

section \<open>Symbols (analyzer/symbols.py)\<close>

datatype Symbol =
    VariableSymbol (sym_name: string) (sym_type_name: string) (is_mutable: bool)
  | FunctionSymbol (sym_name: string) (sym_type_name: string) (parameters: "Symbol list")
      (is_builtin: bool)

text \<open>
  A \<open>dict\<close> is an association list with one entry for each key, in the order of
  insertion: \<open>d[k] = v\<close> is \<open>dict_set\<close>, \<open>d.get(k)\<close> is \<open>map_of\<close>, \<open>len(d)\<close> is
  \<open>length\<close>.
\<close>

fun dict_set :: "'k \<Rightarrow> 'v \<Rightarrow> ('k \<times> 'v) list \<Rightarrow> ('k \<times> 'v) list" where
  "dict_set k v [] = [(k, v)]"
| "dict_set k v ((k', v') # d) = (if k = k' then (k, v) # d else (k', v') # dict_set k v d)"

text \<open>
  A scope holds its parent scope. While a child scope is the current one, every \<open>define\<close>
  of the analyzers goes to the child, so the parent held by the child is the parent as the
  analyzer saved it.
\<close>

datatype SymbolTable =
  SymbolTable (symbols: "(string \<times> Symbol) list") (parent: "SymbolTable option")
    (scope_name: string)

definition define_symbol :: "SymbolTable \<Rightarrow> Symbol \<Rightarrow> SymbolTable" where
  "define_symbol st symbol =
     SymbolTable (dict_set (sym_name symbol) symbol (symbols st)) (parent st) (scope_name st)"

fun resolve :: "SymbolTable \<Rightarrow> string \<Rightarrow> Symbol option" where
  "resolve (SymbolTable syms par nm) name =
     (case map_of syms name of
        Some symbol \<Rightarrow> Some symbol
      | None \<Rightarrow> (case par of Some p \<Rightarrow> resolve p name | None \<Rightarrow> None))"

definition resolve_local :: "SymbolTable \<Rightarrow> string \<Rightarrow> Symbol option" where
  "resolve_local st name = map_of (symbols st) name"

definition contains :: "SymbolTable \<Rightarrow> string \<Rightarrow> bool" where
  "contains st name = (resolve st name \<noteq> None)"

definition contains_local :: "SymbolTable \<Rightarrow> string \<Rightarrow> bool" where
  "contains_local st name = (name \<in> set (map fst (symbols st)))"

text \<open>\<open>str\<close> of a number.\<close>

fun str_nat :: "nat \<Rightarrow> string" where
  "str_nat n =
     (if n < 10 then [char_of (48 + n)]
      else str_nat (n div 10) @ [char_of (48 + n mod 10)])"

declare str_nat.simps [simp del]

definition str_int :: "int \<Rightarrow> string" where
  "str_int i = (if i < 0 then CHR ''-'' # str_nat (nat (- i)) else str_nat (nat i))"

definition create_child_scope :: "SymbolTable \<Rightarrow> string \<Rightarrow> SymbolTable" where
  "create_child_scope st name =
     (let scope_name' =
        (if name \<noteq> [] then name
         else scope_name st @ ''.child'' @ str_nat (length (symbols st)))
      in SymbolTable [] (Some st) scope_name')"

section \<open>Type checker (analyzer/type_checker.py)\<close>

record TypeError =
  message :: string
  err_line :: int
  err_column :: int

record TypeChecker =
  symbol_table :: SymbolTable
  errors :: "TypeError list"
  current_function :: "Symbol option"

definition types :: "string list" where
  "types =
     [''Void'', ''Int'', ''Float'', ''String'', ''Boolean'', ''Array'', ''Map'', ''Element'',
      ''Energy'', ''Spirit'', ''Matter'']"

text \<open>\<open>__init__\<close> with \<open>_init_builtins\<close>.\<close>

definition TypeChecker_init :: TypeChecker where
  "TypeChecker_init =
     \<lparr>symbol_table =
        define_symbol (SymbolTable [] None ''global'')
          (FunctionSymbol ''print'' ''Void'' [VariableSymbol ''value'' ''Any'' True] True),
      errors = [],
      current_function = None\<rparr>"

text \<open>\<open>self.errors.append(TypeError(message, line, column))\<close>\<close>

definition add_error :: "TypeChecker \<Rightarrow> string \<Rightarrow> int \<Rightarrow> int \<Rightarrow> TypeChecker" where
  "add_error tc msg l c =
     tc\<lparr>errors := errors tc @ [\<lparr>message = msg, err_line = l, err_column = c\<rparr>]\<rparr>"

text \<open>
  The visitor methods of the expressions, one equation for each method; each returns the
  type name and the checker. \<open>tc_call_args\<close> is the loop of \<open>visit_call_expression\<close> over
  \<open>enumerate(zip(node.arguments, func_symbol.parameters))\<close> and \<open>tc_array_rest\<close> the loop
  of \<open>visit_array_literal\<close> over \<open>node.elements[1:]\<close>.
\<close>

fun tc_visit_expr :: "expr \<Rightarrow> TypeChecker \<Rightarrow> string \<times> TypeChecker"
  and tc_call_args :: "string \<Rightarrow> nat \<Rightarrow> expr list \<Rightarrow> Symbol list \<Rightarrow> TypeChecker \<Rightarrow> TypeChecker"
  and tc_array_rest :: "string \<Rightarrow> expr list \<Rightarrow> TypeChecker \<Rightarrow> TypeChecker" where
  "tc_visit_expr (Identifier i) tc =
     (case resolve (symbol_table tc) (id_name i) of
        None \<Rightarrow>
          (''Unknown'',
           add_error tc (''Undefined identifier '' @ quoted (id_name i)) (id_line i) (id_column i))
      | Some symbol \<Rightarrow> (sym_type_name symbol, tc))"
| "tc_visit_expr (IntegerLiteral v l c) tc = (''Int'', tc)"
| "tc_visit_expr (FloatLiteral v l c) tc = (''Float'', tc)"
| "tc_visit_expr (StringLiteral v l c) tc = (''String'', tc)"
| "tc_visit_expr (BooleanLiteral v l c) tc = (''Boolean'', tc)"
| "tc_visit_expr (BinaryExpression left opr right l c) tc =
     (let (left_type, tc1) = tc_visit_expr left tc;
          (right_type, tc2) = tc_visit_expr right tc1;
          failed =
            (''Unknown'',
             add_error tc2
               (''Cannot apply operator '' @ quoted opr @ '' to types '' @ quoted left_type
                  @ '' and '' @ quoted right_type) l c)
      in if opr \<in> set [''+'', ''-'', ''*'', ''/''] then
           (if left_type = ''Int'' \<and> right_type = ''Int'' then (''Int'', tc2)
            else if left_type \<in> set [''Int'', ''Float''] \<and> right_type \<in> set [''Int'', ''Float'']
              then (''Float'', tc2)
            else if opr = ''+'' \<and> (left_type = ''String'' \<or> right_type = ''String'')
              then (''String'', tc2)
            else failed)
         else if opr \<in> set [''=='', ''!='', ''<'', ''>'', ''<='', ''>=''] then (''Boolean'', tc2)
         else failed)"
| "tc_visit_expr (UnaryExpression opr right l c) tc =
     (let (right_type, tc1) = tc_visit_expr right tc;
          failed =
            (''Unknown'',
             add_error tc1
               (''Cannot apply unary operator '' @ quoted opr @ '' to type '' @ quoted right_type)
               l c)
      in if opr = ''-'' then
           (if right_type \<in> set [''Int'', ''Float''] then (right_type, tc1) else failed)
         else if opr = ''!'' then
           (if right_type = ''Boolean'' then (''Boolean'', tc1) else failed)
         else failed)"
| "tc_visit_expr (CallExpression callee arguments l c) tc =
     (let (callee_type, tc1) = tc_visit_expr callee tc
      in case callee of
           Identifier i \<Rightarrow>
             (let func_name = id_name i
              in case resolve (symbol_table tc1) func_name of
                   None \<Rightarrow>
                     (''Unknown'', add_error tc1 (''Undefined function '' @ quoted func_name) l c)
                 | Some (VariableSymbol n t m) \<Rightarrow>
                     (''Unknown'',
                      add_error tc1 (''Cannot call non-function '' @ quoted func_name) l c)
                 | Some (FunctionSymbol n t params b) \<Rightarrow>
                     if length arguments \<noteq> length params then
                       (t,
                        add_error tc1
                          (''Function '' @ quoted func_name @ '' expects ''
                             @ str_nat (length params) @ '' arguments, but got ''
                             @ str_nat (length arguments)) l c)
                     else (t, tc_call_args func_name 0 arguments params tc1))
         | _ \<Rightarrow>
             (''Unknown'',
              add_error tc1
                (''Expression of type '' @ quoted callee_type @ '' is not callable'') l c))"
| "tc_visit_expr (AssignmentExpression target val l c) tc =
     (case target of
        Identifier i \<Rightarrow>
          (let var_name = id_name i
           in case resolve (symbol_table tc) var_name of
                None \<Rightarrow>
                  (''Unknown'', add_error tc (''Undefined variable '' @ quoted var_name) l c)
              | Some var_symbol \<Rightarrow>
                  (let tc1 =
                     (if (case var_symbol of
                            VariableSymbol n t m \<Rightarrow> \<not> m
                          | FunctionSymbol n t ps b \<Rightarrow> False)
                      then add_error tc
                             (''Cannot assign to immutable variable '' @ quoted var_name) l c
                      else tc);
                       (value_type, tc2) = tc_visit_expr val tc1;
                       tc3 =
                         (if value_type \<noteq> sym_type_name var_symbol
                          then add_error tc2
                                 (''Cannot assign a value of type '' @ quoted value_type
                                    @ '' to a variable of type ''
                                    @ quoted (sym_type_name var_symbol)) l c
                          else tc2)
                   in (sym_type_name var_symbol, tc3)))
      | _ \<Rightarrow> (''Unknown'', add_error tc ''Invalid assignment target'' l c))"
| "tc_visit_expr (ArrayLiteral [] l c) tc = (''Array<Any>'', tc)"
| "tc_visit_expr (ArrayLiteral (e # es) l c) tc =
     (let (element_type, tc1) = tc_visit_expr e tc;
          tc2 = tc_array_rest element_type es tc1
      in (''Array<'' @ element_type @ ''>'', tc2))"
| "tc_visit_expr (IndexExpression array index l c) tc =
     (let (array_type, tc1) = tc_visit_expr array tc;
          (index_type, tc2) = tc_visit_expr index tc1
      in if take 6 array_type \<noteq> ''Array<'' then
           (''Unknown'',
            add_error tc2 (''Cannot index into non-array type '' @ quoted array_type) l c)
         else
           (let tc3 =
              (if index_type \<noteq> ''Int''
               then add_error tc2 (''Array index must be an Int, got '' @ quoted index_type)
                      (expr_line index) (expr_column index)
               else tc2)
            in (butlast (drop 6 array_type), tc3)))"
| "tc_call_args func_name i (arg # args) (param # params) tc =
     (let (arg_type, tc1) = tc_visit_expr arg tc;
          tc2 =
            (if arg_type \<noteq> sym_type_name param \<and> sym_type_name param \<noteq> ''Any''
             then add_error tc1
                    (''Argument '' @ str_nat (i + 1) @ '' to function '' @ quoted func_name
                       @ '' must be of type '' @ quoted (sym_type_name param) @ '', got ''
                       @ quoted arg_type) (expr_line arg) (expr_column arg)
             else tc1)
      in tc_call_args func_name (i + 1) args params tc2)"
| "tc_call_args func_name i [] params tc = tc"
| "tc_call_args func_name i (arg # args) [] tc = tc"
| "tc_array_rest element_type [] tc = tc"
| "tc_array_rest element_type (e # es) tc =
     (let (current_type, tc1) = tc_visit_expr e tc;
          tc2 =
            (if current_type \<noteq> element_type
             then add_error tc1
                    (''Array elements must all have the same type. Expected ''
                       @ quoted element_type @ '', got '' @ quoted current_type)
                    (expr_line e) (expr_column e)
             else tc1)
      in tc_array_rest element_type es tc2)"

text \<open>
  The parameter symbols of a function declaration. Both analyzers append them to
  \<open>func_symbol.parameters\<close> before any statement of the body is visited, and nothing
  reads the function symbol before that, so the symbol is built with them.
\<close>

definition param_symbols :: "Parameter list \<Rightarrow> Symbol list" where
  "param_symbols ps =
     map (\<lambda>p. VariableSymbol (id_name (param_name p)) (param_type_annotation p) True) ps"

text \<open>
  The visitor methods of the statements; \<open>tc_visit_stmts\<close> is the loop over a list of
  statements and \<open>tc_for_initializer\<close> the visit of the initializer of a \<open>for\<close>
  statement, when there is one.
\<close>

function (sequential) tc_visit_stmt :: "stmt \<Rightarrow> TypeChecker \<Rightarrow> TypeChecker"
  and tc_for_initializer :: "(stmt + expr) option \<Rightarrow> TypeChecker \<Rightarrow> TypeChecker"
  and tc_visit_stmts :: "stmt list \<Rightarrow> TypeChecker \<Rightarrow> TypeChecker" where
  "tc_visit_stmt (VariableDeclaration name type_annotation initializer l c) tc =
     (let (init_type, tc1) =
            (case initializer of None \<Rightarrow> (''Void'', tc) | Some e \<Rightarrow> tc_visit_expr e tc);
          tc2 =
            (case type_annotation of
               None \<Rightarrow> tc1
             | Some a \<Rightarrow>
                 if a \<notin> set types then add_error tc1 (''Unknown type '' @ quoted a) l c
                 else if initializer \<noteq> None \<and> init_type \<noteq> a then
                   add_error tc1
                     (''Cannot assign a value of type '' @ quoted init_type
                        @ '' to a variable of type '' @ quoted a) l c
                 else tc1);
          var_type = (case type_annotation of Some a \<Rightarrow> a | None \<Rightarrow> init_type)
      in if contains_local (symbol_table tc2) (id_name name) then
           add_error tc2
             (''Variable '' @ quoted (id_name name) @ '' is already defined in this scope'') l c
         else
           tc2\<lparr>symbol_table :=
                 define_symbol (symbol_table tc2) (VariableSymbol (id_name name) var_type True)\<rparr>)"
| "tc_visit_stmt (FunctionDeclaration name params return_type body l c) tc =
     (let func_symbol = FunctionSymbol (id_name name) return_type (param_symbols params) False;
          tc1 =
            (if contains_local (symbol_table tc) (id_name name) then
               add_error tc
                 (''Function '' @ quoted (id_name name) @ '' is already defined in this scope'')
                 l c
             else tc\<lparr>symbol_table := define_symbol (symbol_table tc) func_symbol\<rparr>);
          function_scope = create_child_scope (symbol_table tc1) (id_name name);
          previous_scope = symbol_table tc1;
          previous_function = current_function tc1;
          tc2 = tc1\<lparr>symbol_table := function_scope, current_function := Some func_symbol\<rparr>;
          tc3 = tc2\<lparr>symbol_table := foldl define_symbol (symbol_table tc2) (param_symbols params)\<rparr>;
          tc4 = tc_visit_stmts body tc3
      in tc4\<lparr>symbol_table := previous_scope, current_function := previous_function\<rparr>)"
| "tc_visit_stmt (ReturnStatement val l c) tc =
     (case current_function tc of
        None \<Rightarrow> add_error tc ''Return statement outside of function'' l c
      | Some f \<Rightarrow>
          (case val of
             None \<Rightarrow>
               if sym_type_name f \<noteq> ''Void'' then
                 add_error tc
                   (''Function '' @ quoted (sym_name f) @ '' must return a value of type ''
                      @ quoted (sym_type_name f)) l c
               else tc
           | Some e \<Rightarrow>
               (let (return_type, tc1) = tc_visit_expr e tc
                in if return_type \<noteq> sym_type_name f then
                     add_error tc1
                       (''Cannot return a value of type '' @ quoted return_type
                          @ '' from a function with return type '' @ quoted (sym_type_name f))
                       l c
                   else tc1)))"
| "tc_visit_stmt (BlockStatement stmts l c) tc =
     (let block_scope = create_child_scope (symbol_table tc) [];
          previous_scope = symbol_table tc;
          tc1 = tc_visit_stmts stmts (tc\<lparr>symbol_table := block_scope\<rparr>)
      in tc1\<lparr>symbol_table := previous_scope\<rparr>)"
| "tc_visit_stmt (IfStatement condition then_branch else_branch l c) tc =
     (let (condition_type, tc1) = tc_visit_expr condition tc;
          tc2 =
            (if condition_type \<noteq> ''Boolean'' then
               add_error tc1 (''If condition must be a Boolean, got '' @ quoted condition_type)
                 (expr_line condition) (expr_column condition)
             else tc1);
          tc3 = tc_visit_stmt then_branch tc2
      in case else_branch of None \<Rightarrow> tc3 | Some s \<Rightarrow> tc_visit_stmt s tc3)"
| "tc_visit_stmt (WhileStatement condition body l c) tc =
     (let (condition_type, tc1) = tc_visit_expr condition tc;
          tc2 =
            (if condition_type \<noteq> ''Boolean'' then
               add_error tc1 (''While condition must be a Boolean, got '' @ quoted condition_type)
                 (expr_line condition) (expr_column condition)
             else tc1)
      in tc_visit_stmt body tc2)"
| "tc_visit_stmt (ForStatement initializer condition increment body l c) tc =
     (let for_scope = create_child_scope (symbol_table tc) [];
          previous_scope = symbol_table tc;
          tc1 = tc\<lparr>symbol_table := for_scope\<rparr>;
          tc2 = tc_for_initializer initializer tc1;
          tc3 =
            (case condition of
               None \<Rightarrow> tc2
             | Some e \<Rightarrow>
                 (let (condition_type, tc') = tc_visit_expr e tc2
                  in if condition_type \<noteq> ''Boolean'' then
                       add_error tc'
                         (''For condition must be a Boolean, got '' @ quoted condition_type)
                         (expr_line e) (expr_column e)
                     else tc'));
          tc4 = (case increment of None \<Rightarrow> tc3 | Some e \<Rightarrow> snd (tc_visit_expr e tc3));
          tc5 = tc_visit_stmt body tc4
      in tc5\<lparr>symbol_table := previous_scope\<rparr>)"
| "tc_visit_stmt (ExpressionStatement e l c) tc = snd (tc_visit_expr e tc)"
| "tc_for_initializer None tc = tc"
| "tc_for_initializer (Some (Inl d)) tc = tc_visit_stmt d tc"
| "tc_for_initializer (Some (Inr e)) tc = snd (tc_visit_expr e tc)"
| "tc_visit_stmts [] tc = tc"
| "tc_visit_stmts (s # ss) tc = tc_visit_stmts ss (tc_visit_stmt s tc)"
  by pat_completeness auto
termination
  by (relation "measure (\<lambda>x. case x of
          Inl (s, tc) \<Rightarrow> size s
        | Inr (Inl (i, tc)) \<Rightarrow> size_option (size_sum size (\<lambda>x. 0)) i
        | Inr (Inr (ss, tc)) \<Rightarrow> size_list size ss)")
     auto

text \<open>\<open>check\<close> with \<open>visit_program\<close>: the errors returned and the checker after the walk.\<close>

definition tc_check :: "TypeChecker \<Rightarrow> Program \<Rightarrow> TypeError list \<times> TypeChecker" where
  "tc_check tc program =
     (let tc' = tc_visit_stmts (statements program) tc in (errors tc', tc'))"

section \<open>Semantic analyzer (analyzer/semantic_analyzer.py)\<close>

record Location =
  loc_line :: int
  loc_column :: int

record Definition =
  def_name :: string
  kind :: string
  location :: Location
  def_type_name :: string
  detail :: string

record Reference =
  ref_name :: string
  ref_location :: Location
  ref_definition :: Definition

record SemanticInfo =
  info_definitions :: "(string \<times> Definition list) list"
  info_references :: "Reference list"
  info_errors :: "string list"

record SemanticAnalyzer =
  sa_symbol_table :: SymbolTable
  definitions :: "(string \<times> Definition list) list"
  references :: "Reference list"
  sa_errors :: "string list"
  sa_current_function :: "Symbol option"

definition mkLocation :: "int \<Rightarrow> int \<Rightarrow> Location" where
  "mkLocation l c = \<lparr>loc_line = l, loc_column = c\<rparr>"

text \<open>\<open>_record_definition\<close> (the analyzer after it; the callers do not use the result)\<close>

definition record_definition ::
  "SemanticAnalyzer \<Rightarrow> string \<Rightarrow> string \<Rightarrow> Location \<Rightarrow> string \<Rightarrow> string \<Rightarrow> SemanticAnalyzer" where
  "record_definition sa name knd loc type_name dtl =
     (let d = \<lparr>def_name = name, kind = knd, location = loc, def_type_name = type_name,
                detail = dtl\<rparr>;
          defs = (if name \<notin> set (map fst (definitions sa))
                  then dict_set name [] (definitions sa) else definitions sa);
          old = (case map_of defs name of Some ds \<Rightarrow> ds | None \<Rightarrow> [])
      in sa\<lparr>definitions := dict_set name (old @ [d]) defs\<rparr>)"

text \<open>\<open>_record_reference\<close>\<close>

definition record_reference ::
  "SemanticAnalyzer \<Rightarrow> string \<Rightarrow> Location \<Rightarrow> Definition \<Rightarrow> SemanticAnalyzer" where
  "record_reference sa name loc d =
     sa\<lparr>references := references sa @ [\<lparr>ref_name = name, ref_location = loc, ref_definition = d\<rparr>]\<rparr>"

definition find_definition :: "SemanticAnalyzer \<Rightarrow> string \<Rightarrow> Location \<Rightarrow> Definition option" where
  "find_definition sa name loc =
     (let ds = (case map_of (definitions sa) name of Some ds \<Rightarrow> ds | None \<Rightarrow> [])
      in case ds of [] \<Rightarrow> None | d # _ \<Rightarrow> Some d)"

definition find_all_references :: "SemanticAnalyzer \<Rightarrow> string \<Rightarrow> Location \<Rightarrow> Reference list" where
  "find_all_references sa name def_location =
     filter (\<lambda>ref. ref_name ref = name
               \<and> (loc_line (location (ref_definition ref)) = loc_line def_location
                  \<and> loc_column (location (ref_definition ref)) = loc_column def_location))
       (references sa)"

definition find_hover_info :: "SemanticAnalyzer \<Rightarrow> string \<Rightarrow> Location \<Rightarrow> string option" where
  "find_hover_info sa name loc =
     (case find_definition sa name loc of
        None \<Rightarrow> None
      | Some d \<Rightarrow>
          if detail d \<noteq> [] then
            Some (kind d @ '' '' @ def_name d @ '': '' @ def_type_name d @ [CHR 0x0A] @ detail d)
          else Some (kind d @ '' '' @ def_name d @ '': '' @ def_type_name d))"

text \<open>\<open>__init__\<close> with \<open>_init_builtins\<close>.\<close>

definition SemanticAnalyzer_init :: SemanticAnalyzer where
  "SemanticAnalyzer_init =
     record_definition
       \<lparr>sa_symbol_table =
          define_symbol (SymbolTable [] None ''global'')
            (FunctionSymbol ''print'' ''Void'' [VariableSymbol ''value'' ''Any'' True] True),
        definitions = [], references = [], sa_errors = [], sa_current_function = None\<rparr>
       ''print'' ''function'' (mkLocation 0 0) ''Void''
       ''Built-in function: print(value: Any) -> Void''"

text \<open>\<open>', '.join\<close> and \<open>_format_function_signature\<close>.\<close>

fun join :: "string \<Rightarrow> string list \<Rightarrow> string" where
  "join sep [] = []"
| "join sep [x] = x"
| "join sep (x # y # ys) = x @ sep @ join sep (y # ys)"

definition format_function_signature :: "ident \<Rightarrow> Parameter list \<Rightarrow> string \<Rightarrow> string" where
  "format_function_signature name params return_type =
     ''function '' @ id_name name @ ''(''
       @ join '', '' (map (\<lambda>p. id_name (param_name p) @ '': '' @ param_type_annotation p) params)
       @ '') -> '' @ return_type"

text \<open>The visitor methods of the expressions; \<open>sa_visit_exprs\<close> is the loop over the
  arguments of a call or the elements of an array literal.\<close>

fun sa_visit_expr :: "expr \<Rightarrow> SemanticAnalyzer \<Rightarrow> SemanticAnalyzer"
  and sa_visit_exprs :: "expr list \<Rightarrow> SemanticAnalyzer \<Rightarrow> SemanticAnalyzer" where
  "sa_visit_expr (Identifier i) sa =
     (case resolve (sa_symbol_table sa) (id_name i) of
        None \<Rightarrow>
          sa\<lparr>sa_errors := sa_errors sa
                @ [''Undefined identifier '' @ quoted (id_name i) @ '' at ''
                     @ str_int (id_line i) @ '':'' @ str_int (id_column i)]\<rparr>
      | Some symbol \<Rightarrow>
          (case find_definition sa (id_name i) (mkLocation (id_line i) (id_column i)) of
             Some d \<Rightarrow> record_reference sa (id_name i) (mkLocation (id_line i) (id_column i)) d
           | None \<Rightarrow> sa))"
| "sa_visit_expr (IntegerLiteral v l c) sa = sa"
| "sa_visit_expr (FloatLiteral v l c) sa = sa"
| "sa_visit_expr (StringLiteral v l c) sa = sa"
| "sa_visit_expr (BooleanLiteral v l c) sa = sa"
| "sa_visit_expr (BinaryExpression left opr right l c) sa =
     sa_visit_expr right (sa_visit_expr left sa)"
| "sa_visit_expr (UnaryExpression opr right l c) sa = sa_visit_expr right sa"
| "sa_visit_expr (CallExpression callee arguments l c) sa =
     sa_visit_exprs arguments (sa_visit_expr callee sa)"
| "sa_visit_expr (AssignmentExpression target val l c) sa =
     sa_visit_expr val (sa_visit_expr target sa)"
| "sa_visit_expr (ArrayLiteral elements l c) sa = sa_visit_exprs elements sa"
| "sa_visit_expr (IndexExpression array index l c) sa =
     sa_visit_expr index (sa_visit_expr array sa)"
| "sa_visit_exprs [] sa = sa"
| "sa_visit_exprs (e # es) sa = sa_visit_exprs es (sa_visit_expr e sa)"

text \<open>\<open>visit_parameter\<close>\<close>

definition sa_visit_parameter :: "Parameter \<Rightarrow> SemanticAnalyzer \<Rightarrow> SemanticAnalyzer" where
  "sa_visit_parameter p sa =
     (let sa1 = record_definition sa (id_name (param_name p)) ''parameter''
                  (mkLocation (id_line (param_name p)) (id_column (param_name p)))
                  (param_type_annotation p) [];
          param_symbol = VariableSymbol (id_name (param_name p)) (param_type_annotation p) True
      in sa1\<lparr>sa_symbol_table := define_symbol (sa_symbol_table sa1) param_symbol\<rparr>)"

text \<open>
  The visitor methods of the statements; \<open>sa_visit_stmts\<close> is the loop over a list of
  statements and \<open>sa_for_initializer\<close> the visit of the initializer of a \<open>for\<close>
  statement, when there is one.
\<close>

function (sequential) sa_visit_stmt :: "stmt \<Rightarrow> SemanticAnalyzer \<Rightarrow> SemanticAnalyzer"
  and sa_for_initializer :: "(stmt + expr) option \<Rightarrow> SemanticAnalyzer \<Rightarrow> SemanticAnalyzer"
  and sa_visit_stmts :: "stmt list \<Rightarrow> SemanticAnalyzer \<Rightarrow> SemanticAnalyzer" where
  "sa_visit_stmt (FunctionDeclaration name params return_type body l c) sa =
     (let sa0 = record_definition sa (id_name name) ''function'' (mkLocation l c) return_type
                  (format_function_signature name params return_type);
          func_symbol = FunctionSymbol (id_name name) return_type (param_symbols params) False;
          sa1 =
            (if contains_local (sa_symbol_table sa0) (id_name name) then
               sa0\<lparr>sa_errors := sa_errors sa0
                     @ [''Function '' @ quoted (id_name name) @ '' is already defined at ''
                          @ str_int l @ '':'' @ str_int c]\<rparr>
             else sa0\<lparr>sa_symbol_table := define_symbol (sa_symbol_table sa0) func_symbol\<rparr>);
          function_scope = create_child_scope (sa_symbol_table sa1) (id_name name);
          previous_scope = sa_symbol_table sa1;
          previous_function = sa_current_function sa1;
          sa2 = sa1\<lparr>sa_symbol_table := function_scope, sa_current_function := Some func_symbol\<rparr>;
          sa3 = foldl (\<lambda>a p. sa_visit_parameter p a) sa2 params;
          sa4 = sa_visit_stmts body sa3
      in sa4\<lparr>sa_symbol_table := previous_scope, sa_current_function := previous_function\<rparr>)"
| "sa_visit_stmt (VariableDeclaration name type_annotation initializer l c) sa =
     (let var_type =
            (case type_annotation of
               None \<Rightarrow> ''inferred''
             | Some a \<Rightarrow> if a \<noteq> [] then a else ''inferred'');
          sa1 = record_definition sa (id_name name) ''variable'' (mkLocation l c) var_type [];
          var_symbol = VariableSymbol (id_name name) var_type True;
          sa2 =
            (if contains_local (sa_symbol_table sa1) (id_name name) then
               sa1\<lparr>sa_errors := sa_errors sa1
                     @ [''Variable '' @ quoted (id_name name) @ '' is already defined at ''
                          @ str_int l @ '':'' @ str_int c]\<rparr>
             else sa1\<lparr>sa_symbol_table := define_symbol (sa_symbol_table sa1) var_symbol\<rparr>)
      in case initializer of None \<Rightarrow> sa2 | Some e \<Rightarrow> sa_visit_expr e sa2)"
| "sa_visit_stmt (ReturnStatement val l c) sa =
     (case val of None \<Rightarrow> sa | Some e \<Rightarrow> sa_visit_expr e sa)"
| "sa_visit_stmt (BlockStatement stmts l c) sa =
     (let block_scope = create_child_scope (sa_symbol_table sa) [];
          previous_scope = sa_symbol_table sa;
          sa1 = sa_visit_stmts stmts (sa\<lparr>sa_symbol_table := block_scope\<rparr>)
      in sa1\<lparr>sa_symbol_table := previous_scope\<rparr>)"
| "sa_visit_stmt (IfStatement condition then_branch else_branch l c) sa =
     (let sa1 = sa_visit_expr condition sa;
          sa2 = sa_visit_stmt then_branch sa1
      in case else_branch of None \<Rightarrow> sa2 | Some s \<Rightarrow> sa_visit_stmt s sa2)"
| "sa_visit_stmt (WhileStatement condition body l c) sa =
     sa_visit_stmt body (sa_visit_expr condition sa)"
| "sa_visit_stmt (ForStatement initializer condition increment body l c) sa =
     (let for_scope = create_child_scope (sa_symbol_table sa) [];
          previous_scope = sa_symbol_table sa;
          sa1 = sa\<lparr>sa_symbol_table := for_scope\<rparr>;
          sa2 = sa_for_initializer initializer sa1;
          sa3 = (case condition of None \<Rightarrow> sa2 | Some e \<Rightarrow> sa_visit_expr e sa2);
          sa4 = (case increment of None \<Rightarrow> sa3 | Some e \<Rightarrow> sa_visit_expr e sa3);
          sa5 = sa_visit_stmt body sa4
      in sa5\<lparr>sa_symbol_table := previous_scope\<rparr>)"
| "sa_visit_stmt (ExpressionStatement e l c) sa = sa_visit_expr e sa"
| "sa_for_initializer None sa = sa"
| "sa_for_initializer (Some (Inl d)) sa = sa_visit_stmt d sa"
| "sa_for_initializer (Some (Inr e)) sa = sa_visit_expr e sa"
| "sa_visit_stmts [] sa = sa"
| "sa_visit_stmts (s # ss) sa = sa_visit_stmts ss (sa_visit_stmt s sa)"
  by pat_completeness auto
termination
  by (relation "measure (\<lambda>x. case x of
          Inl (s, sa) \<Rightarrow> size s
        | Inr (Inl (i, sa)) \<Rightarrow> size_option (size_sum size (\<lambda>x. 0)) i
        | Inr (Inr (ss, sa)) \<Rightarrow> size_list size ss)")
     auto

text \<open>\<open>analyze\<close> with \<open>visit_program\<close>: the information returned and the analyzer after
  the walk.\<close>

definition analyze :: "SemanticAnalyzer \<Rightarrow> Program \<Rightarrow> SemanticInfo \<times> SemanticAnalyzer" where
  "analyze sa program =
     (let sa' = sa_visit_stmts (statements program) sa
      in (\<lparr>info_definitions = definitions sa', info_references = references sa',
           info_errors = sa_errors sa'\<rparr>, sa'))"

section \<open>The pipeline (lsp/server.py, \<open>_analyze_document\<close>)\<close>

text \<open>
  The analysis of a document text: the parse, then a fresh type checker and a fresh
  semantic analyzer on the program. The result is the three collections the server turns
  into diagnostics, or the exception that left \<open>parse\<close>.
\<close>

definition analyze_document ::
  "string \<Rightarrow> exn + ((Token \<times> string) list \<times> TypeError list \<times> SemanticInfo)" where
  "analyze_document text =
     (case parse (Parser_init text) of
        (Inl e, parser) \<Rightarrow> Inl e
      | (Inr ast, parser) \<Rightarrow>
          Inr (parse_errors parser,
               fst (tc_check TypeChecker_init ast),
               fst (analyze SemanticAnalyzer_init ast)))"

section \<open>Lemmas about the analyzers\<close>

definition binary_type_spec :: "string \<Rightarrow> string \<Rightarrow> string \<Rightarrow> string option" where
  "binary_type_spec opr left_type right_type =
     (if opr \<in> {''+'', ''-'', ''*'', ''/''} \<and> left_type = ''Int'' \<and> right_type = ''Int''
        then Some ''Int''
      else if opr \<in> {''+'', ''-'', ''*'', ''/''} \<and> left_type \<in> {''Int'', ''Float''}
              \<and> right_type \<in> {''Int'', ''Float''} \<and> \<not> (left_type = ''Int'' \<and> right_type = ''Int'')
        then Some ''Float''
      else if opr = ''+'' \<and> (left_type = ''String'' \<or> right_type = ''String'')
        then Some ''String''
      else if opr \<in> {''=='', ''!='', ''<'', ''>'', ''<='', ''>=''} then Some ''Boolean''
      else None)"

lemma map_of_dict_set: "map_of (dict_set k v d) k' = (if k' = k then Some v else map_of d k')"
  by (induction d) auto

lemma resolve_define_symbol:
  "resolve (define_symbol st symbol) name =
     (if name = sym_name symbol then Some symbol else resolve st name)"
  by (cases st) (simp add: define_symbol_def map_of_dict_set)

lemma Location_eq_iff:
  "(a :: Location) = b \<longleftrightarrow> loc_line a = loc_line b \<and> loc_column a = loc_column b"
  by (cases a, cases b) simp

lemma dict_set_keys: "fst ` set (dict_set k v d) = insert k (fst ` set d)"
  by (induction d) force+

definition tc_appends :: "TypeChecker \<Rightarrow> TypeChecker \<Rightarrow> bool" where
  "tc_appends tc tc' = (\<exists>new. tc' = tc\<lparr>errors := errors tc @ new\<rparr>)"

lemma tc_appends_refl [simp]: "tc_appends tc tc"
  by (auto simp: tc_appends_def intro: exI [of _ "[]"])

lemma tc_appends_trans: "tc_appends a b \<Longrightarrow> tc_appends b c \<Longrightarrow> tc_appends a c"
  by (auto simp: tc_appends_def)

lemma tc_appends_add_error: "tc_appends a b \<Longrightarrow> tc_appends a (add_error b m l c)"
  by (auto simp: tc_appends_def add_error_def)

lemma tc_appends_add_error0 [simp]: "tc_appends a (add_error a m l c)"
  by (simp add: tc_appends_add_error)

lemma tc_visit_expr_appends:
  "tc_appends tc (snd (tc_visit_expr e tc))"
  "tc_appends tc (tc_call_args f i args ps tc)"
  "tc_appends tc (tc_array_rest t es tc)"
proof (induction e tc and f i args ps tc and t es tc
    rule: tc_visit_expr_tc_call_args_tc_array_rest.induct)
  case (6 left opr right l c tc)
  have a: "tc_appends tc (snd (tc_visit_expr left tc))" using 6(1) .
  have b: "tc_appends (snd (tc_visit_expr left tc))
             (snd (tc_visit_expr right (snd (tc_visit_expr left tc))))"
    using 6(2) [OF refl prod.collapse] .
  note ab = tc_appends_trans [OF a b]
  show ?case
    using ab by (simp add: Let_def case_prod_beta tc_appends_add_error)
next
  case (7 opr right l c tc)
  then show ?case by (simp add: Let_def case_prod_beta tc_appends_add_error)
next
  case (8 callee arguments l c tc)
  have a: "tc_appends tc (snd (tc_visit_expr callee tc))" using 8(1) .
  show ?case
  proof (cases callee)
    case (Identifier i)
    show ?thesis
    proof (cases "resolve (symbol_table (snd (tc_visit_expr callee tc))) (id_name i)")
      case None
      then show ?thesis using a Identifier
        by (simp add: Let_def case_prod_beta tc_appends_add_error del: tc_visit_expr.simps(1))
    next
      case (Some sym)
      show ?thesis
      proof (cases sym)
        case (VariableSymbol n t m)
        then show ?thesis using a Identifier Some
          by (simp add: Let_def case_prod_beta tc_appends_add_error del: tc_visit_expr.simps(1))
      next
        case (FunctionSymbol n t params b)
        have "length arguments = length params \<Longrightarrow>
                tc_appends (snd (tc_visit_expr callee tc))
                  (tc_call_args (id_name i) 0 arguments params (snd (tc_visit_expr callee tc)))"
          using 8(2) [OF refl prod.collapse Identifier refl Some FunctionSymbol] by simp
        then show ?thesis using a Identifier Some FunctionSymbol
          by (auto simp: Let_def case_prod_beta tc_appends_add_error
                simp del: tc_visit_expr.simps(1) intro: tc_appends_trans)
      qed
    qed
  qed (use a in \<open>simp_all add: Let_def case_prod_beta tc_appends_add_error\<close>)
next
  case (9 target val l c tc)
  show ?case
  proof (cases target)
    case (Identifier i)
    show ?thesis
    proof (cases "resolve (symbol_table tc) (id_name i)")
      case None
      then show ?thesis using Identifier by (simp add: Let_def)
    next
      case (Some sym)
      define tc1 where "tc1 =
        (if (case sym of VariableSymbol n t m \<Rightarrow> \<not> m | FunctionSymbol n t ps b \<Rightarrow> False)
         then add_error tc (''Cannot assign to immutable variable '' @ quoted (id_name i)) l c
         else tc)"
      have a: "tc_appends tc tc1" by (simp add: tc1_def)
      have b: "tc_appends tc1 (snd (tc_visit_expr val tc1))"
        using 9 [OF Identifier refl Some refl] by (simp add: tc1_def)
      show ?thesis
        using tc_appends_trans [OF a b] Identifier Some
        by (simp add: Let_def case_prod_beta tc_appends_add_error tc1_def)
    qed
  qed (simp_all)
next
  case (11 e es l c tc)
  have a: "tc_appends tc (snd (tc_visit_expr e tc))" using 11(1) .
  have b: "tc_appends (snd (tc_visit_expr e tc))
             (tc_array_rest (fst (tc_visit_expr e tc)) es (snd (tc_visit_expr e tc)))"
    using 11(2) [OF refl prod.collapse] .
  show ?case using tc_appends_trans [OF a b] by (simp add: Let_def case_prod_beta)
next
  case (12 array index l c tc)
  have a: "tc_appends tc (snd (tc_visit_expr array tc))" using 12(1) .
  have b: "tc_appends (snd (tc_visit_expr array tc))
             (snd (tc_visit_expr index (snd (tc_visit_expr array tc))))"
    using 12(2) [OF refl prod.collapse] .
  show ?case
    using tc_appends_trans [OF a b] by (simp add: Let_def case_prod_beta tc_appends_add_error)
next
  case (13 func_name i arg args param params tc)
  have a: "tc_appends tc (snd (tc_visit_expr arg tc))" using 13(1) .
  define tc2 where "tc2 =
    (if fst (tc_visit_expr arg tc) \<noteq> sym_type_name param \<and> sym_type_name param \<noteq> ''Any''
     then add_error (snd (tc_visit_expr arg tc))
            (''Argument '' @ str_nat (i + 1) @ '' to function '' @ quoted func_name
               @ '' must be of type '' @ quoted (sym_type_name param) @ '', got ''
               @ quoted (fst (tc_visit_expr arg tc))) (expr_line arg) (expr_column arg)
     else snd (tc_visit_expr arg tc))"
  have b: "tc_appends tc tc2" using a by (simp add: tc2_def tc_appends_add_error)
  have c: "tc_appends tc2 (tc_call_args func_name (i + 1) args params tc2)"
    using 13(2) [OF refl prod.collapse refl] by (simp add: tc2_def)
  show ?case using tc_appends_trans [OF b c] by (simp add: Let_def case_prod_beta tc2_def)
next
  case (17 element_type e es tc)
  have a: "tc_appends tc (snd (tc_visit_expr e tc))" using 17(1) .
  define tc2 where "tc2 =
    (if fst (tc_visit_expr e tc) \<noteq> element_type
     then add_error (snd (tc_visit_expr e tc))
            (''Array elements must all have the same type. Expected ''
               @ quoted element_type @ '', got '' @ quoted (fst (tc_visit_expr e tc)))
            (expr_line e) (expr_column e)
     else snd (tc_visit_expr e tc))"
  have b: "tc_appends tc tc2" using a by (simp add: tc2_def tc_appends_add_error)
  have c: "tc_appends tc2 (tc_array_rest element_type es tc2)"
    using 17(2) [OF refl prod.collapse refl] by (simp add: tc2_def)
  show ?case using tc_appends_trans [OF b c] by (simp add: Let_def case_prod_beta tc2_def)
qed (simp_all split: option.splits)

lemma tc_appends_fields:
  "tc_appends a b \<Longrightarrow> symbol_table b = symbol_table a \<and> current_function b = current_function a"
  by (auto simp: tc_appends_def)

lemma tc_visit_expr_fields:
  "symbol_table (snd (tc_visit_expr e tc)) = symbol_table tc"
  "current_function (snd (tc_visit_expr e tc)) = current_function tc"
  using tc_appends_fields [OF tc_visit_expr_appends(1) [of tc e]] by simp_all

lemma add_error_fields [simp]:
  "symbol_table (add_error tc m l c) = symbol_table tc"
  "current_function (add_error tc m l c) = current_function tc"
  by (simp_all add: add_error_def)

definition scope_extends :: "SymbolTable \<Rightarrow> SymbolTable \<Rightarrow> bool" where
  "scope_extends a b = (\<exists>syms. b = foldl define_symbol a syms)"

lemma scope_extends_refl [simp]: "scope_extends a a"
  by (auto simp: scope_extends_def intro: exI [of _ "[]"])


lemma scope_extends_define [simp]: "scope_extends a (define_symbol a s)"
  unfolding scope_extends_def by (rule exI [of _ "[s]"]) simp


definition tc_keeps_scope :: "TypeChecker \<Rightarrow> TypeChecker \<Rightarrow> bool" where
  "tc_keeps_scope tc tc' =
     (scope_extends (symbol_table tc) (symbol_table tc')
      \<and> current_function tc' = current_function tc)"

lemma tc_keeps_scope_refl [simp]: "tc_keeps_scope tc tc"
  by (simp add: tc_keeps_scope_def)






definition sa_appends :: "SemanticAnalyzer \<Rightarrow> SemanticAnalyzer \<Rightarrow> bool" where
  "sa_appends sa sa' =
     (\<exists>refs errs. sa' = sa\<lparr>references := references sa @ refs, sa_errors := sa_errors sa @ errs\<rparr>)"

lemma sa_appends_refl [simp]: "sa_appends sa sa"
  unfolding sa_appends_def by (rule exI [of _ "[]"], rule exI [of _ "[]"]) simp




definition sa_keeps_scope :: "SemanticAnalyzer \<Rightarrow> SemanticAnalyzer \<Rightarrow> bool" where
  "sa_keeps_scope sa sa' =
     (scope_extends (sa_symbol_table sa) (sa_symbol_table sa')
      \<and> sa_current_function sa' = sa_current_function sa)"

lemma sa_keeps_scope_refl [simp]: "sa_keeps_scope sa sa"
  by (simp add: sa_keeps_scope_def)



lemma record_definition_fields [simp]:
  "sa_symbol_table (record_definition sa n k loc t d) = sa_symbol_table sa"
  "sa_current_function (record_definition sa n k loc t d) = sa_current_function sa"
  "references (record_definition sa n k loc t d) = references sa"
  "sa_errors (record_definition sa n k loc t d) = sa_errors sa"
  by (simp_all add: record_definition_def Let_def)


text \<open>The Identifier nodes of an expression, in the order in which the semantic analyzer
  visits them.\<close>

fun idents :: "expr \<Rightarrow> ident list"
  and idents_list :: "expr list \<Rightarrow> ident list" where
  "idents (Identifier i) = [i]"
| "idents (IntegerLiteral v l c) = []"
| "idents (FloatLiteral v l c) = []"
| "idents (StringLiteral v l c) = []"
| "idents (BooleanLiteral v l c) = []"
| "idents (BinaryExpression left opr right l c) = idents left @ idents right"
| "idents (UnaryExpression opr right l c) = idents right"
| "idents (CallExpression callee arguments l c) = idents callee @ idents_list arguments"
| "idents (AssignmentExpression target val l c) = idents target @ idents val"
| "idents (ArrayLiteral elements l c) = idents_list elements"
| "idents (IndexExpression array index l c) = idents array @ idents index"
| "idents_list [] = []"
| "idents_list (e # es) = idents e @ idents_list es"

text \<open>
  The Identifier nodes of an expression that the type checker visits, in the scope \<open>st\<close>
  (no visit of an expression changes the scope): \<open>visit_call_expression\<close> visits the
  callee, and the arguments only when the callee is an identifier that resolves to a
  function with as many parameters as there are arguments;
  \<open>visit_assignment_expression\<close> does not visit the target, and visits the value only
  when the target is an identifier that resolves to a symbol; the other methods visit all
  their operands.
\<close>

definition call_visits_args :: "SymbolTable \<Rightarrow> expr \<Rightarrow> expr list \<Rightarrow> bool" where
  "call_visits_args st callee arguments =
     (case callee of
        Identifier i \<Rightarrow>
          (case resolve st (id_name i) of
             Some (FunctionSymbol n t params b) \<Rightarrow> length arguments = length params
           | _ \<Rightarrow> False)
      | _ \<Rightarrow> False)"

definition assign_visits_value :: "SymbolTable \<Rightarrow> expr \<Rightarrow> bool" where
  "assign_visits_value st target =
     (case target of Identifier i \<Rightarrow> resolve st (id_name i) \<noteq> None | _ \<Rightarrow> False)"

fun tc_visited :: "SymbolTable \<Rightarrow> expr \<Rightarrow> ident list"
  and tc_visited_list :: "SymbolTable \<Rightarrow> expr list \<Rightarrow> ident list" where
  "tc_visited st (Identifier i) = [i]"
| "tc_visited st (IntegerLiteral v l c) = []"
| "tc_visited st (FloatLiteral v l c) = []"
| "tc_visited st (StringLiteral v l c) = []"
| "tc_visited st (BooleanLiteral v l c) = []"
| "tc_visited st (BinaryExpression left opr right l c) = tc_visited st left @ tc_visited st right"
| "tc_visited st (UnaryExpression opr right l c) = tc_visited st right"
| "tc_visited st (CallExpression callee arguments l c) =
     tc_visited st callee
       @ (if call_visits_args st callee arguments then tc_visited_list st arguments else [])"
| "tc_visited st (AssignmentExpression target val l c) =
     (if assign_visits_value st target then tc_visited st val else [])"
| "tc_visited st (ArrayLiteral elements l c) = tc_visited_list st elements"
| "tc_visited st (IndexExpression array index l c) = tc_visited st array @ tc_visited st index"
| "tc_visited_list st [] = []"
| "tc_visited_list st (e # es) = tc_visited st e @ tc_visited_list st es"

definition undefined_identifier_error :: "ident \<Rightarrow> TypeError" where
  "undefined_identifier_error i =
     \<lparr>message = ''Undefined identifier '' @ quoted (id_name i), err_line = id_line i,
      err_column = id_column i\<rparr>"

definition undefined_identifier_message :: "ident \<Rightarrow> string" where
  "undefined_identifier_message i =
     ''Undefined identifier '' @ quoted (id_name i) @ '' at '' @ str_int (id_line i) @ '':''
       @ str_int (id_column i)"

definition reference_to :: "Definition \<Rightarrow> ident \<Rightarrow> Reference" where
  "reference_to d i =
     \<lparr>ref_name = id_name i, ref_location = mkLocation (id_line i) (id_column i),
      ref_definition = d\<rparr>"

definition new_errors :: "TypeChecker \<Rightarrow> TypeChecker \<Rightarrow> TypeError list" where
  "new_errors tc tc' = drop (length (errors tc)) (errors tc')"

lemma tc_appends_new_errors: "tc_appends a b \<Longrightarrow> errors b = errors a @ new_errors a b"
  by (auto simp: tc_appends_def new_errors_def)

lemma new_errors_trans:
  "tc_appends a b \<Longrightarrow> tc_appends b c \<Longrightarrow> new_errors a c = new_errors a b @ new_errors b c"
  by (auto simp: tc_appends_def new_errors_def)

lemma new_errors_add_error:
  "tc_appends a b \<Longrightarrow> new_errors a (add_error b m l c)
     = new_errors a b @ [\<lparr>message = m, err_line = l, err_column = c\<rparr>]"
  by (auto simp: tc_appends_def new_errors_def add_error_def)

lemma new_errors_mono:
  "tc_appends a b \<Longrightarrow> tc_appends b c \<Longrightarrow> e \<in> set (new_errors a b) \<Longrightarrow> e \<in> set (new_errors a c)"
  using new_errors_trans [of a b c] by simp

lemma new_errors_mono2:
  "tc_appends a b \<Longrightarrow> tc_appends b c \<Longrightarrow> e \<in> set (new_errors b c) \<Longrightarrow> e \<in> set (new_errors a c)"
  using new_errors_trans [of a b c] by simp

lemma binary_appends:
  "tc_appends (snd (tc_visit_expr right (snd (tc_visit_expr left tc))))
     (snd (tc_visit_expr (BinaryExpression left opr right l c) tc))"
  by (simp add: Let_def case_prod_beta)

lemma unary_appends:
  "tc_appends (snd (tc_visit_expr right tc))
     (snd (tc_visit_expr (UnaryExpression opr right l c) tc))"
  by (simp add: Let_def case_prod_beta)

lemma index_appends:
  "tc_appends (snd (tc_visit_expr index (snd (tc_visit_expr array tc))))
     (snd (tc_visit_expr (IndexExpression array index l c) tc))"
  by (simp add: Let_def case_prod_beta)

lemma call_appends:
  "tc_appends (snd (tc_visit_expr callee tc))
     (snd (tc_visit_expr (CallExpression callee arguments l c) tc))"
proof -
  have "tc_appends tc1 (tc_call_args f n arguments ps tc1)" for f n ps tc1
    by (rule tc_visit_expr_appends)
  then show ?thesis
    by (auto simp: Let_def case_prod_beta split: expr.splits option.splits Symbol.splits)
qed

lemma call_args_eq:
  assumes "call_visits_args (symbol_table tc) callee arguments"
  shows "\<exists>f ps. length ps = length arguments
           \<and> snd (tc_visit_expr (CallExpression callee arguments l c) tc)
               = tc_call_args f 0 arguments ps (snd (tc_visit_expr callee tc))"
proof -
  obtain j where j: "callee = Identifier j"
    using assms by (cases callee) (simp_all add: call_visits_args_def)
  obtain n t ps b where r: "resolve (symbol_table tc) (id_name j) = Some (FunctionSymbol n t ps b)"
    and len: "length arguments = length ps"
    using assms j
    by (auto simp: call_visits_args_def split: option.splits Symbol.splits)
  have "snd (tc_visit_expr (CallExpression callee arguments l c) tc)
          = tc_call_args (id_name j) 0 arguments ps (snd (tc_visit_expr callee tc))"
    using j r len by (simp add: Let_def)
  then show ?thesis using len by metis
qed

lemma assign_eq:
  assumes "assign_visits_value (symbol_table tc) target"
  shows "\<exists>tc1. tc_appends tc tc1
           \<and> tc_appends (snd (tc_visit_expr val tc1))
               (snd (tc_visit_expr (AssignmentExpression target val l c) tc))"
proof -
  obtain j where j: "target = Identifier j"
    using assms by (cases target) (simp_all add: assign_visits_value_def)
  obtain vs where r: "resolve (symbol_table tc) (id_name j) = Some vs"
    using assms j by (auto simp: assign_visits_value_def)
  define tc1 where "tc1 =
    (if (case vs of VariableSymbol n t m \<Rightarrow> \<not> m | FunctionSymbol n t ps b \<Rightarrow> False)
     then add_error tc (''Cannot assign to immutable variable '' @ quoted (id_name j)) l c
     else tc)"
  have a: "tc_appends tc tc1" by (simp add: tc1_def)
  have "tc_appends (snd (tc_visit_expr val tc1))
               (snd (tc_visit_expr (AssignmentExpression target val l c) tc))"
    using j r by (simp add: Let_def case_prod_beta tc1_def)
  then show ?thesis using a by blast
qed

lemma tc_visited_undefined:
  "symbol_table tc = st \<Longrightarrow> resolve st (id_name i) = None \<Longrightarrow> i \<in> set (tc_visited st e) \<Longrightarrow>
     undefined_identifier_error i \<in> set (new_errors tc (snd (tc_visit_expr e tc)))"
  "symbol_table tc = st \<Longrightarrow> resolve st (id_name i) = None \<Longrightarrow> i \<in> set (tc_visited_list st es) \<Longrightarrow>
     undefined_identifier_error i \<in> set (new_errors tc (tc_array_rest t es tc))
     \<and> (length ps = length es \<longrightarrow>
          undefined_identifier_error i \<in> set (new_errors tc (tc_call_args f n es ps tc)))"
proof (induction st e and st es arbitrary: tc and tc t ps f n
    rule: tc_visited_tc_visited_list.induct)
  case (1 st j)
  then show ?case
    by (simp add: new_errors_def add_error_def undefined_identifier_error_def)
next
  case (6 st left opr right l c)
  define tc1 where "tc1 = snd (tc_visit_expr left tc)"
  define tc2 where "tc2 = snd (tc_visit_expr right tc1)"
  have a: "tc_appends tc tc1" unfolding tc1_def by (rule tc_visit_expr_appends)
  have b: "tc_appends tc1 tc2" unfolding tc2_def by (rule tc_visit_expr_appends)
  have s1: "symbol_table tc1 = st"
    using 6(3) tc_appends_fields [OF a] by simp
  have m: "undefined_identifier_error i \<in> set (new_errors tc tc2)"
  proof (cases "i \<in> set (tc_visited st left)")
    case True
    then show ?thesis
      using 6(1) [OF 6(3) 6(4) True] new_errors_trans [OF a b] by (simp add: tc1_def)
  next
    case False
    then have "i \<in> set (tc_visited st right)" using 6(5) by simp
    then show ?thesis
      using 6(2) [OF s1 6(4)] new_errors_trans [OF a b] by (simp add: tc2_def)
  qed
  have ab: "tc_appends tc tc2" using a b by (rule tc_appends_trans)
  show ?case
    using new_errors_mono [OF ab _ m] binary_appends [of right left tc opr l c]
    by (simp add: tc1_def tc2_def)
next
  case (7 st opr right l c)
  define tc1 where "tc1 = snd (tc_visit_expr right tc)"
  have a: "tc_appends tc tc1" unfolding tc1_def by (rule tc_visit_expr_appends)
  have m: "undefined_identifier_error i \<in> set (new_errors tc tc1)"
    using 7 by (simp add: tc1_def)
  show ?case
    using new_errors_mono [OF a _ m] unary_appends [of right tc opr l c]
    by (simp add: tc1_def)
next
  case (8 st callee arguments l c)
  define tc1 where "tc1 = snd (tc_visit_expr callee tc)"
  have a: "tc_appends tc tc1" unfolding tc1_def by (rule tc_visit_expr_appends)
  have s1: "symbol_table tc1 = st"
    using 8(3) tc_appends_fields [OF a] by simp
  have b: "tc_appends tc1 (snd (tc_visit_expr (CallExpression callee arguments l c) tc))"
    unfolding tc1_def by (rule call_appends)
  show ?case
  proof (cases "i \<in> set (tc_visited st callee)")
    case True
    have "undefined_identifier_error i \<in> set (new_errors tc tc1)"
      using 8(1) [OF 8(3) 8(4) True] by (simp add: tc1_def)
    then show ?thesis by (rule new_errors_mono [OF a b])
  next
    case False
    then have v: "call_visits_args st callee arguments"
      and mem: "i \<in> set (tc_visited_list st arguments)"
      using 8(5) by (simp_all split: if_splits)
    obtain f ps where len: "length ps = length arguments"
      and eq: "snd (tc_visit_expr (CallExpression callee arguments l c) tc)
                 = tc_call_args f 0 arguments ps tc1"
      using call_args_eq [of tc callee arguments l c] v 8(3) by (auto simp: tc1_def)
    have "undefined_identifier_error i \<in> set (new_errors tc1 (tc_call_args f 0 arguments ps tc1))"
      using 8(2) [OF v s1 8(4) mem] len by blast
    then show ?thesis
      using new_errors_mono2 [OF a b] eq by simp
  qed
next
  case (9 st target val l c)
  have v: "assign_visits_value st target" and mem: "i \<in> set (tc_visited st val)"
    using 9(4) by (simp_all split: if_splits)
  obtain tc1 where a: "tc_appends tc tc1"
    and b: "tc_appends (snd (tc_visit_expr val tc1))
               (snd (tc_visit_expr (AssignmentExpression target val l c) tc))"
    using assign_eq [of tc target val l c] v 9(2) by auto
  have s1: "symbol_table tc1 = st"
    using 9(2) tc_appends_fields [OF a] by simp
  have m: "undefined_identifier_error i \<in> set (new_errors tc1 (snd (tc_visit_expr val tc1)))"
    using 9(1) [OF v s1 9(3) mem] .
  have c: "tc_appends tc1 (snd (tc_visit_expr val tc1))" by (rule tc_visit_expr_appends)
  have "undefined_identifier_error i
          \<in> set (new_errors tc1 (snd (tc_visit_expr (AssignmentExpression target val l c) tc)))"
    using new_errors_mono [OF c b m] .
  then show ?case
    by (rule new_errors_mono2 [OF a tc_appends_trans [OF c b]])
next
  case (10 st elements l c)
  show ?case
  proof (cases elements)
    case Nil
    then show ?thesis using 10 by simp
  next
    case (Cons e es)
    define tc1 where "tc1 = snd (tc_visit_expr e tc)"
    have eq: "snd (tc_visit_expr (ArrayLiteral elements l c) tc)
                = tc_array_rest (fst (tc_visit_expr e tc)) es tc1"
      using Cons by (simp add: Let_def case_prod_beta tc1_def)
    have "undefined_identifier_error i
            \<in> set (new_errors tc (tc_array_rest (fst (tc_visit_expr e tc)) elements tc))"
      using 10(1) [OF 10(2) 10(3)] 10(4) by simp
    moreover have "tc_array_rest (fst (tc_visit_expr e tc)) (e # es) tc
                     = tc_array_rest (fst (tc_visit_expr e tc)) es tc1"
      by (simp add: Let_def case_prod_beta tc1_def)
    ultimately show ?thesis using eq Cons by simp
  qed
next
  case (11 st array index l c)
  define tc1 where "tc1 = snd (tc_visit_expr array tc)"
  define tc2 where "tc2 = snd (tc_visit_expr index tc1)"
  have a: "tc_appends tc tc1" unfolding tc1_def by (rule tc_visit_expr_appends)
  have b: "tc_appends tc1 tc2" unfolding tc2_def by (rule tc_visit_expr_appends)
  have s1: "symbol_table tc1 = st"
    using 11(3) tc_appends_fields [OF a] by simp
  have m: "undefined_identifier_error i \<in> set (new_errors tc tc2)"
  proof (cases "i \<in> set (tc_visited st array)")
    case True
    then show ?thesis
      using 11(1) [OF 11(3) 11(4) True] new_errors_trans [OF a b] by (simp add: tc1_def)
  next
    case False
    then have "i \<in> set (tc_visited st index)" using 11(5) by simp
    then show ?thesis
      using 11(2) [OF s1 11(4)] new_errors_trans [OF a b] by (simp add: tc2_def)
  qed
  have ab: "tc_appends tc tc2" using a b by (rule tc_appends_trans)
  show ?case
    using new_errors_mono [OF ab _ m] index_appends [of index array tc l c]
    by (simp add: tc1_def tc2_def)
next
  case (13 st e es)
  define tc1 where "tc1 = snd (tc_visit_expr e tc)"
  have a: "tc_appends tc tc1" unfolding tc1_def by (rule tc_visit_expr_appends)
  have first: "i \<in> set (tc_visited st e) \<Longrightarrow>
      undefined_identifier_error i \<in> set (new_errors tc tc1)"
    using 13(1) [OF 13(3) 13(4)] by (simp add: tc1_def)
  have array: "undefined_identifier_error i \<in> set (new_errors tc (tc_array_rest t (e # es) tc))"
  proof -
    define tc2 where "tc2 =
      (if fst (tc_visit_expr e tc) \<noteq> t
       then add_error tc1
              (''Array elements must all have the same type. Expected ''
                 @ quoted t @ '', got '' @ quoted (fst (tc_visit_expr e tc)))
              (expr_line e) (expr_column e)
       else tc1)"
    have a2: "tc_appends tc1 tc2" by (simp add: tc2_def)
    have b: "tc_appends tc2 (tc_array_rest t es tc2)" by (rule tc_visit_expr_appends)
    have eq: "tc_array_rest t (e # es) tc = tc_array_rest t es tc2"
      by (simp add: Let_def case_prod_beta tc2_def tc1_def)
    have s2: "symbol_table tc2 = st"
      using 13(3) tc_appends_fields [OF tc_appends_trans [OF a a2]] by simp
    show ?thesis
    proof (cases "i \<in> set (tc_visited st e)")
      case True
      show ?thesis
        unfolding eq
        by (rule new_errors_mono [OF a tc_appends_trans [OF a2 b] first [OF True]])
    next
      case False
      then have "i \<in> set (tc_visited_list st es)" using 13(5) by simp
      then have "undefined_identifier_error i \<in> set (new_errors tc2 (tc_array_rest t es tc2))"
        using 13(2) [OF s2 13(4)] by blast
      then show ?thesis
        unfolding eq by (rule new_errors_mono2 [OF tc_appends_trans [OF a a2] b])
    qed
  qed
  have call: "undefined_identifier_error i \<in> set (new_errors tc (tc_call_args f n (e # es) ps tc))"
    if len: "length ps = length (e # es)"
  proof -
    obtain p ps' where ps: "ps = p # ps'" and len': "length ps' = length es"
      using len by (cases ps) simp_all
    define tc2 where "tc2 =
      (if fst (tc_visit_expr e tc) \<noteq> sym_type_name p \<and> sym_type_name p \<noteq> ''Any''
       then add_error tc1
              (''Argument '' @ str_nat (n + 1) @ '' to function '' @ quoted f
                 @ '' must be of type '' @ quoted (sym_type_name p) @ '', got ''
                 @ quoted (fst (tc_visit_expr e tc))) (expr_line e) (expr_column e)
       else tc1)"
    have a2: "tc_appends tc1 tc2" by (simp add: tc2_def)
    have b: "tc_appends tc2 (tc_call_args f (n + 1) es ps' tc2)" by (rule tc_visit_expr_appends)
    have eq: "tc_call_args f n (e # es) ps tc = tc_call_args f (n + 1) es ps' tc2"
      by (simp add: ps Let_def case_prod_beta tc2_def tc1_def)
    have s2: "symbol_table tc2 = st"
      using 13(3) tc_appends_fields [OF tc_appends_trans [OF a a2]] by simp
    show ?thesis
    proof (cases "i \<in> set (tc_visited st e)")
      case True
      show ?thesis
        unfolding eq
        by (rule new_errors_mono [OF a tc_appends_trans [OF a2 b] first [OF True]])
    next
      case False
      then have "i \<in> set (tc_visited_list st es)" using 13(5) by simp
      then have "undefined_identifier_error i
                   \<in> set (new_errors tc2 (tc_call_args f (n + 1) es ps' tc2))"
        using 13(2) [OF s2 13(4)] len' by blast
      then show ?thesis
        unfolding eq by (rule new_errors_mono2 [OF tc_appends_trans [OF a a2] b])
    qed
  qed
  show ?case using array call by blast
qed simp_all

definition first_definition :: "(string \<times> Definition list) list \<Rightarrow> string \<Rightarrow> Definition option" where
  "first_definition defs name =
     (case map_of defs name of None \<Rightarrow> None | Some [] \<Rightarrow> None | Some (d # ds) \<Rightarrow> Some d)"

lemma find_definition_first: "find_definition sa name loc = first_definition (definitions sa) name"
  by (simp add: find_definition_def first_definition_def Let_def split: option.splits list.splits)

definition ident_refs ::
  "SymbolTable \<Rightarrow> (string \<times> Definition list) list \<Rightarrow> ident list \<Rightarrow> Reference list" where
  "ident_refs st defs js =
     concat (map (\<lambda>j. case resolve st (id_name j) of
                         None \<Rightarrow> []
                       | Some symbol \<Rightarrow>
                           (case first_definition defs (id_name j) of
                              None \<Rightarrow> []
                            | Some d \<Rightarrow> [reference_to d j])) js)"

definition ident_errs :: "SymbolTable \<Rightarrow> ident list \<Rightarrow> string list" where
  "ident_errs st js =
     map undefined_identifier_message (filter (\<lambda>j. resolve st (id_name j) = None) js)"

lemma ident_refs_append [simp]:
  "ident_refs st defs (xs @ ys) = ident_refs st defs xs @ ident_refs st defs ys"
  by (simp add: ident_refs_def)

lemma ident_errs_append [simp]: "ident_errs st (xs @ ys) = ident_errs st xs @ ident_errs st ys"
  by (simp add: ident_errs_def)

lemma ident_refs_Nil [simp]: "ident_refs st defs [] = []"
  by (simp add: ident_refs_def)

lemma ident_errs_Nil [simp]: "ident_errs st [] = []"
  by (simp add: ident_errs_def)

definition sa_recorded :: "SemanticAnalyzer \<Rightarrow> ident list \<Rightarrow> SemanticAnalyzer" where
  "sa_recorded sa js =
     sa\<lparr>references := references sa @ ident_refs (sa_symbol_table sa) (definitions sa) js,
        sa_errors := sa_errors sa @ ident_errs (sa_symbol_table sa) js\<rparr>"

lemma sa_recorded_Nil [simp]: "sa_recorded sa [] = sa"
  by (simp add: sa_recorded_def)

lemma sa_recorded_append: "sa_recorded (sa_recorded sa xs) ys = sa_recorded sa (xs @ ys)"
  by (simp add: sa_recorded_def)

lemma sa_visit_expr_recorded:
  "sa_visit_expr e sa = sa_recorded sa (idents e)"
  "sa_visit_exprs es sa = sa_recorded sa (idents_list es)"
proof (induction e sa and es sa rule: sa_visit_expr_sa_visit_exprs.induct)
  case (1 i sa)
  show ?case
    by (simp add: sa_recorded_def ident_refs_def ident_errs_def find_definition_first
          record_reference_def reference_to_def undefined_identifier_message_def
          split: option.splits)
qed (simp_all add: sa_recorded_append)

lemma contains_local_iff: "contains_local st name \<longleftrightarrow> map_of (symbols st) name \<noteq> None"
  by (simp add: contains_local_def map_of_eq_None_iff)

lemma record_definition_definitions:
  "map_of (definitions (record_definition sa n k loc t d)) n' =
     (if n' = n
      then Some ((case map_of (definitions sa) n of None \<Rightarrow> [] | Some ds \<Rightarrow> ds)
                   @ [\<lparr>def_name = n, kind = k, location = loc, def_type_name = t, detail = d\<rparr>])
      else map_of (definitions sa) n')"
  by (auto simp: record_definition_def Let_def map_of_dict_set
        split: option.splits dest: map_of_SomeD weak_map_of_SomeI
        simp flip: map_of_eq_None_iff)

lemma tc_declaration_errors:
  "\<exists>more. errors (tc_visit_stmt (VariableDeclaration name ann (Some e) l c) tc)
            = errors (snd (tc_visit_expr e tc)) @ more"
  by (simp add: Let_def case_prod_beta add_error_def split: option.splits)

lemma tc_declaration_new_errors:
  assumes "err \<in> set (new_errors tc (snd (tc_visit_expr e tc)))"
  shows "err \<in> set (new_errors tc (tc_visit_stmt (VariableDeclaration name ann (Some e) l c) tc))"
proof -
  obtain more where m: "errors (tc_visit_stmt (VariableDeclaration name ann (Some e) l c) tc)
            = errors (snd (tc_visit_expr e tc)) @ more"
    using tc_declaration_errors by blast
  have "errors (snd (tc_visit_expr e tc)) = errors tc @ new_errors tc (snd (tc_visit_expr e tc))"
    by (rule tc_appends_new_errors) (rule tc_visit_expr_appends)
  then show ?thesis using assms m by (simp add: new_errors_def)
qed

definition own_definition :: "ident \<Rightarrow> string option \<Rightarrow> int \<Rightarrow> int \<Rightarrow> Definition" where
  "own_definition name ann l c =
     \<lparr>def_name = id_name name, kind = ''variable'', location = mkLocation l c,
      def_type_name =
        (case ann of None \<Rightarrow> ''inferred'' | Some a \<Rightarrow> if a \<noteq> [] then a else ''inferred''),
      detail = []\<rparr>"

lemma sa_declaration_eq:
  assumes "resolve (sa_symbol_table sa) (id_name name) = None"
  shows "sa_visit_stmt (VariableDeclaration name ann (Some e) l c) sa =
           sa_recorded
             ((record_definition sa (id_name name) ''variable'' (mkLocation l c)
                 (def_type_name (own_definition name ann l c)) [])
                \<lparr>sa_symbol_table :=
                    define_symbol (sa_symbol_table sa)
                      (VariableSymbol (id_name name)
                         (def_type_name (own_definition name ann l c)) True)\<rparr>)
             (idents e)"
proof -
  have "\<not> contains_local (sa_symbol_table sa) (id_name name)"
    using assms by (cases "sa_symbol_table sa") (auto simp: contains_local_iff split: option.splits)
  then show ?thesis
    by (simp add: Let_def sa_visit_expr_recorded own_definition_def)
qed

lemma ident_refs_member:
  assumes "i \<in> set js" and "resolve st (id_name i) = Some symbol"
    and "first_definition defs (id_name i) = Some d"
  shows "reference_to d i \<in> set (ident_refs st defs js)"
  using assms by (force simp: ident_refs_def)

text \<open>
  The Definition to which \<open>visit_identifier\<close> binds a Reference of the declared name while
  the initializer of the declaration is visited: \<open>find_definition\<close> returns the first
  Definition recorded for the name, so it is the first one recorded before the
  declaration when there is one, and the declaration's own otherwise.
\<close>

definition earlier_definitions :: "SemanticAnalyzer \<Rightarrow> string \<Rightarrow> Definition list" where
  "earlier_definitions sa n = (case map_of (definitions sa) n of None \<Rightarrow> [] | Some ds \<Rightarrow> ds)"

definition bound_definition ::
  "SemanticAnalyzer \<Rightarrow> ident \<Rightarrow> string option \<Rightarrow> int \<Rightarrow> int \<Rightarrow> Definition" where
  "bound_definition sa name ann l c =
     (case earlier_definitions sa (id_name name) of
        [] \<Rightarrow> own_definition name ann l c
      | d # ds \<Rightarrow> d)"

definition new_references :: "SemanticAnalyzer \<Rightarrow> SemanticAnalyzer \<Rightarrow> Reference list" where
  "new_references sa sa' = drop (length (references sa)) (references sa')"

lemma ident_refs_filter:
  assumes "resolve st n = Some symb" and "first_definition defs n = Some d"
  shows "filter (\<lambda>r. ref_name r = n) (ident_refs st defs js)
           = map (reference_to d) (filter (\<lambda>i. id_name i = n) js)"
proof (induction js)
  case Nil
  show ?case by simp
next
  case (Cons j js)
  have "ident_refs st defs (j # js) = ident_refs st defs [j] @ ident_refs st defs js"
    using ident_refs_append [of st defs "[j]" js] by simp
  moreover have "filter (\<lambda>r. ref_name r = n) (ident_refs st defs [j])
                   = (if id_name j = n then [reference_to d j] else [])"
    using assms
    by (auto simp: ident_refs_def reference_to_def split: option.splits)
  ultimately show ?case using Cons by simp
qed

lemma sa_declaration_first:
  "first_definition
     (definitions (record_definition sa (id_name name) ''variable'' (mkLocation l c)
                     (def_type_name (own_definition name ann l c)) [])) (id_name name)
     = Some (bound_definition sa name ann l c)"
  by (simp add: first_definition_def record_definition_definitions own_definition_def
        bound_definition_def earlier_definitions_def split: option.splits list.splits)

text \<open>
  The symbols of a scope are kept: every name defined in the first scope has the same
  symbol in the second one.
\<close>

definition symbols_kept :: "SymbolTable \<Rightarrow> SymbolTable \<Rightarrow> bool" where
  "symbols_kept a b =
     (\<forall>n. map_of (symbols a) n \<noteq> None \<longrightarrow> map_of (symbols b) n = map_of (symbols a) n)"

lemma symbols_kept_refl [simp]: "symbols_kept a a"
  by (simp add: symbols_kept_def)

lemma symbols_kept_trans:
  assumes "symbols_kept a b" and "symbols_kept b c"
  shows "symbols_kept a c"
  unfolding symbols_kept_def
proof (intro allI impI)
  fix n
  assume n: "map_of (symbols a) n \<noteq> None"
  then have ab: "map_of (symbols b) n = map_of (symbols a) n"
    using assms(1) by (simp add: symbols_kept_def)
  then have "map_of (symbols b) n \<noteq> None" using n by simp
  then have "map_of (symbols c) n = map_of (symbols b) n"
    using assms(2) by (simp add: symbols_kept_def)
  then show "map_of (symbols c) n = map_of (symbols a) n"
    using ab by simp
qed

lemma symbols_kept_define:
  "\<not> contains_local a (sym_name s) \<Longrightarrow> symbols_kept a (define_symbol a s)"
  by (auto simp: symbols_kept_def define_symbol_def map_of_dict_set contains_local_iff)

lemma symbols_kept_resolve:
  assumes "symbols_kept a b" and "map_of (symbols a) n = Some symb"
  shows "resolve b n = Some symb"
proof -
  have "map_of (symbols b) n = Some symb"
    using assms by (simp add: symbols_kept_def)
  then show ?thesis by (cases b) simp
qed

definition tc_keeps_symbols :: "TypeChecker \<Rightarrow> TypeChecker \<Rightarrow> bool" where
  "tc_keeps_symbols tc tc' = symbols_kept (symbol_table tc) (symbol_table tc')"

lemma tc_keeps_symbols_refl [simp]: "tc_keeps_symbols tc tc"
  by (simp add: tc_keeps_symbols_def)

lemma tc_keeps_symbols_trans:
  "tc_keeps_symbols a b \<Longrightarrow> tc_keeps_symbols b c \<Longrightarrow> tc_keeps_symbols a c"
  unfolding tc_keeps_symbols_def by (rule symbols_kept_trans)

lemma tc_keeps_symbols_same:
  "symbol_table b = symbol_table a \<Longrightarrow> tc_keeps_symbols a b"
  by (simp add: tc_keeps_symbols_def)

lemma tc_keeps_symbols_expr: "tc_keeps_symbols tc (snd (tc_visit_expr e tc))"
  by (simp add: tc_keeps_symbols_def tc_visit_expr_fields)

lemma tc_keeps_symbols_add_error:
  "tc_keeps_symbols a b \<Longrightarrow> tc_keeps_symbols a (add_error b m l c)"
  by (simp add: tc_keeps_symbols_def)

lemma tc_visit_stmt_keeps_symbols:
  "tc_keeps_symbols tc (tc_visit_stmt s tc)"
  "tc_keeps_symbols tc (tc_for_initializer i tc)"
  "tc_keeps_symbols tc (tc_visit_stmts ss tc)"
proof (induction s tc and i tc and ss tc
    rule: tc_visit_stmt_tc_for_initializer_tc_visit_stmts.induct)
  case (1 name type_annotation initializer l c tc)
  define r where "r = (case initializer of None \<Rightarrow> (''Void'', tc) | Some e \<Rightarrow> tc_visit_expr e tc)"
  have a: "symbol_table (snd r) = symbol_table tc"
    by (cases initializer) (simp_all add: r_def tc_visit_expr_fields)
  define tc2 where "tc2 =
    (case type_annotation of
       None \<Rightarrow> snd r
     | Some a \<Rightarrow>
         if a \<notin> set types then add_error (snd r) (''Unknown type '' @ quoted a) l c
         else if initializer \<noteq> None \<and> fst r \<noteq> a then
           add_error (snd r)
             (''Cannot assign a value of type '' @ quoted (fst r)
                @ '' to a variable of type '' @ quoted a) l c
         else snd r)"
  have b: "symbol_table tc2 = symbol_table tc"
    using a by (cases type_annotation) (simp_all add: tc2_def)
  have c: "\<not> contains_local (symbol_table tc2) (sym_name symb) \<Longrightarrow>
      tc_keeps_symbols tc (tc2\<lparr>symbol_table := define_symbol (symbol_table tc2) symb\<rparr>)" for symb
    using b by (simp add: tc_keeps_symbols_def symbols_kept_define)
  have d: "tc_keeps_symbols tc (add_error tc2 m l c)" for m
    using b by (simp add: tc_keeps_symbols_def)
  show ?case
    using c d
    by (simp add: Let_def case_prod_beta r_def [symmetric] tc2_def [symmetric])
next
  case (2 name params return_type body l c tc)
  show ?case by (simp add: Let_def tc_keeps_symbols_def symbols_kept_define)
next
  case (3 val l c tc)
  show ?case
    by (auto simp: Let_def case_prod_beta tc_keeps_symbols_add_error tc_keeps_symbols_expr
          split: option.splits)
next
  case (4 stmts l c tc)
  show ?case by (simp add: Let_def tc_keeps_symbols_def)
next
  case (5 condition then_branch else_branch l c tc)
  define tc2 where "tc2 =
    (if fst (tc_visit_expr condition tc) \<noteq> ''Boolean''
     then add_error (snd (tc_visit_expr condition tc))
            (''If condition must be a Boolean, got '' @ quoted (fst (tc_visit_expr condition tc)))
            (expr_line condition) (expr_column condition)
     else snd (tc_visit_expr condition tc))"
  have a: "tc_keeps_symbols tc tc2"
    by (simp add: tc2_def tc_keeps_symbols_add_error tc_keeps_symbols_expr)
  have b: "tc_keeps_symbols tc2 (tc_visit_stmt then_branch tc2)"
    using 5(1) [OF refl prod.collapse refl] by (simp add: tc2_def)
  note ab = tc_keeps_symbols_trans [OF a b]
  show ?case
  proof (cases else_branch)
    case None
    then show ?thesis using ab by (simp add: Let_def case_prod_beta tc2_def)
  next
    case (Some s2)
    have "tc_keeps_symbols (tc_visit_stmt then_branch tc2)
            (tc_visit_stmt s2 (tc_visit_stmt then_branch tc2))"
      using 5(2) [OF refl prod.collapse refl refl Some] by (simp add: tc2_def)
    then show ?thesis
      using tc_keeps_symbols_trans [OF ab] Some by (simp add: Let_def case_prod_beta tc2_def)
  qed
next
  case (6 condition body l c tc)
  define tc2 where "tc2 =
    (if fst (tc_visit_expr condition tc) \<noteq> ''Boolean''
     then add_error (snd (tc_visit_expr condition tc))
            (''While condition must be a Boolean, got ''
               @ quoted (fst (tc_visit_expr condition tc)))
            (expr_line condition) (expr_column condition)
     else snd (tc_visit_expr condition tc))"
  have a: "tc_keeps_symbols tc tc2"
    by (simp add: tc2_def tc_keeps_symbols_add_error tc_keeps_symbols_expr)
  have b: "tc_keeps_symbols tc2 (tc_visit_stmt body tc2)"
    using 6 [OF refl prod.collapse refl] by (simp add: tc2_def)
  show ?case
    using tc_keeps_symbols_trans [OF a b] by (simp add: Let_def case_prod_beta tc2_def)
next
  case (7 initializer condition increment body l c tc)
  have "symbol_table (tc_visit_stmt (ForStatement initializer condition increment body l c) tc)
          = symbol_table tc"
    by (simp add: Let_def)
  then show ?case by (rule tc_keeps_symbols_same)
next
  case (8 e l c tc)
  show ?case by (simp add: tc_keeps_symbols_expr)
next
  case (11 e tc)
  show ?case by (simp add: tc_keeps_symbols_expr)
next
  case (13 s ss tc)
  then show ?case using tc_keeps_symbols_trans by simp
qed simp_all

lemma tc_later_resolve:
  assumes "\<not> contains_local (symbol_table tc) n"
  shows "resolve (symbol_table
            (tc_visit_stmts later
               (tc\<lparr>symbol_table := define_symbol (symbol_table tc) (VariableSymbol n t m)\<rparr>))) n
           = Some (VariableSymbol n t m)"
proof -
  let ?tc1 = "tc\<lparr>symbol_table := define_symbol (symbol_table tc) (VariableSymbol n t m)\<rparr>"
  have "symbols_kept (symbol_table ?tc1) (symbol_table (tc_visit_stmts later ?tc1))"
    using tc_visit_stmt_keeps_symbols(3) [of ?tc1 later] by (simp add: tc_keeps_symbols_def)
  moreover have "map_of (symbols (symbol_table ?tc1)) n = Some (VariableSymbol n t m)"
    by (simp add: define_symbol_def map_of_dict_set)
  ultimately show ?thesis by (rule symbols_kept_resolve)
qed

section \<open>Lemmas about the lexer\<close>

text \<open>
  The condition of the last \<open>else\<close> of \<open>tokenize\<close>: the current character \<open>c\<close> is no
  white space and opens no comment, and no \<open>if\<close> or \<open>elif\<close> of the chain accepts it.
\<close>

definition no_token_rule :: "Lexer \<Rightarrow> char \<Rightarrow> bool" where
  "no_token_rule s c =
     (\<not> isspace c \<and> \<not> isalpha c \<and> c \<noteq> CHR ''_'' \<and> \<not> isdigit c
      \<and> c \<notin> set [CHR 0x22, CHR 0x27, CHR ''+'', CHR ''-'', CHR ''*'', CHR ''/'', CHR ''%'',
                    CHR ''='', CHR ''!'', CHR ''<'', CHR ''>'', CHR ''('', CHR '')'', CHR ''{'',
                    CHR ''}'', CHR ''['', CHR '']'', CHR '','', CHR ''.'', CHR '';'', CHR '':'']
      \<and> \<not> (c = CHR ''&'' \<and> peek s = Some (CHR ''&''))
      \<and> \<not> (c = CHR ''|'' \<and> peek s = Some (CHR ''|'')))"

lemma keywords_map_not_EOF: "map_of keywords_map k = Some t \<Longrightarrow> t \<noteq> EOF"
  by (drule map_of_SomeD) (auto simp: keywords_map_def)

lemma keywords_get_not_EOF: "keywords_get k IDENTIFIER \<noteq> EOF"
  by (auto simp: keywords_get_def keywords_map_not_EOF split: option.splits)

lemma identify_token_not_EOF: "tok_type (fst (identify_token s c)) \<noteq> EOF"
  by (simp add: identify_token_def identifier_tok_def number_def string_tok_def Let_def
        case_prod_beta mkToken_def keywords_get_not_EOF)

lemma tokenize_loop_None: "current_char s = None \<Longrightarrow> tokenize_loop s toks = (toks, s)"
  by (subst tokenize_loop.simps) simp

lemma tokenize_loop_space:
  "current_char s = Some c \<Longrightarrow> isspace c \<Longrightarrow>
     tokenize_loop s toks = tokenize_loop (skip_whitespace s) toks"
  by (subst tokenize_loop.simps) simp

lemma tokenize_loop_comment:
  "current_char s = Some c \<Longrightarrow> \<not> isspace c \<Longrightarrow>
     c = CHR ''/'' \<and> (peek s = Some (CHR ''/'') \<or> peek s = Some (CHR ''*'')) \<Longrightarrow>
     tokenize_loop s toks = tokenize_loop (skip_comment s) toks"
  by (subst tokenize_loop.simps) auto

lemma tokenize_loop_token:
  "current_char s = Some c \<Longrightarrow> \<not> isspace c \<Longrightarrow>
     \<not> (c = CHR ''/'' \<and> (peek s = Some (CHR ''/'') \<or> peek s = Some (CHR ''*''))) \<Longrightarrow>
     tokenize_loop s toks =
       tokenize_loop (snd (identify_token s c)) (toks @ [fst (identify_token s c)])"
  by (subst tokenize_loop.simps) auto

text \<open>
  A property \<open>P\<close> of the tokens that every step of the scan establishes, from lexer states
  that satisfy \<open>I\<close>, holds of all the tokens of the loop.
\<close>

lemma tokenize_loop_all:
  assumes step: "\<And>s c. I s \<Longrightarrow> current_char s = Some c \<Longrightarrow>
                   I (snd (identify_token s c)) \<and> P (fst (identify_token s c))"
    and ws: "\<And>s. I s \<Longrightarrow> I (skip_whitespace s)"
    and cm: "\<And>s. I s \<Longrightarrow> I (skip_comment s)"
  shows "I s \<Longrightarrow> list_all P toks \<Longrightarrow> list_all P (fst (tokenize_loop s toks))"
proof (induction s toks rule: tokenize_loop.induct)
  case (1 s toks)
  show ?case
  proof (cases "current_char s")
    case None
    then show ?thesis using 1 by (simp add: tokenize_loop_None)
  next
    case (Some c)
    show ?thesis
    proof (cases "isspace c")
      case True
      have "list_all P (fst (tokenize_loop (skip_whitespace s) toks))"
        using "1.IH"(1) [OF Some True] ws [OF "1.prems"(1)] "1.prems"(2) by simp
      then show ?thesis by (simp add: tokenize_loop_space [OF Some True])
    next
      case False
      show ?thesis
      proof (cases "c = CHR ''/'' \<and> (peek s = Some (CHR ''/'') \<or> peek s = Some (CHR ''*''))")
        case True
        have "list_all P (fst (tokenize_loop (skip_comment s) toks))"
          using "1.IH"(2) [OF Some False True] cm [OF "1.prems"(1)] "1.prems"(2) by simp
        then show ?thesis by (simp add: tokenize_loop_comment [OF Some False True])
      next
        case nc: False
        have "list_all P (fst (tokenize_loop (snd (identify_token s c))
                                 (toks @ [fst (identify_token s c)])))"
          using "1.IH"(3) [OF Some False nc] step [OF "1.prems"(1) Some] "1.prems"(2) by simp
        then show ?thesis by (simp add: tokenize_loop_token [OF Some False nc])
      qed
    qed
  qed
qed

lemma tokenize_loop_prefix: "\<exists>rest. fst (tokenize_loop s toks) = toks @ rest"
proof (induction s toks rule: tokenize_loop.induct)
  case (1 s toks)
  show ?case
  proof (cases "current_char s")
    case None
    then show ?thesis by (simp add: tokenize_loop_None)
  next
    case (Some c)
    show ?thesis
    proof (cases "isspace c")
      case True
      then show ?thesis using "1.IH"(1) [OF Some True]
        by (simp add: tokenize_loop_space [OF Some True])
    next
      case False
      show ?thesis
      proof (cases "c = CHR ''/'' \<and> (peek s = Some (CHR ''/'') \<or> peek s = Some (CHR ''*''))")
        case True
        then show ?thesis using "1.IH"(2) [OF Some False True]
          by (simp add: tokenize_loop_comment [OF Some False True])
      next
        case nc: False
        obtain rest where "fst (tokenize_loop (snd (identify_token s c))
                                 (toks @ [fst (identify_token s c)]))
                           = (toks @ [fst (identify_token s c)]) @ rest"
          using "1.IH"(3) [OF Some False nc] by blast
        then show ?thesis
          by (simp add: tokenize_loop_token [OF Some False nc])
      qed
    qed
  qed
qed


lemma tokenize_loop_no_EOF:
  "list_all (\<lambda>t. tok_type t \<noteq> EOF) (fst (tokenize_loop s []))"
  by (rule tokenize_loop_all [where I = "\<lambda>s. True"]) (simp_all add: identify_token_not_EOF)

lemma no_token_rule_step:
  assumes "current_char s = Some c" and "no_token_rule s c"
  shows "tokenize_loop s toks =
           tokenize_loop (advance s) (toks @ [mkToken ERROR [c] (line s) (column s)])"
proof -
  have "identify_token s c = (mkToken ERROR [c] (line s) (column s), advance s)"
    using assms(2) by (auto simp: identify_token_def no_token_rule_def Let_def)
  moreover have "\<not> isspace c"
    and "\<not> (c = CHR ''/'' \<and> (peek s = Some (CHR ''/'') \<or> peek s = Some (CHR ''*'')))"
    using assms(2) by (simp_all add: no_token_rule_def)
  ultimately show ?thesis
    using tokenize_loop_token [OF assms(1), of toks] by simp
qed

subsection \<open>Positions in the source and lexemes\<close>

text \<open>
  The line and column of the character at index \<open>k\<close> of a source text, counted as
  \<open>advance\<close> counts them: from (1,1), a line feed starts a new line at column 1 and
  every other character is one column.
\<close>

definition next_pos :: "int \<times> int \<Rightarrow> char \<Rightarrow> int \<times> int" where
  "next_pos p ch = (if ch = CHR 0x0A then (fst p + 1, 1) else (fst p, snd p + 1))"

definition pos_of :: "string \<Rightarrow> nat \<Rightarrow> int \<times> int" where
  "pos_of src k = foldl next_pos (1, 1) (take k src)"

text \<open>The text \<open>v\<close> occurs in \<open>src\<close> at index \<open>k\<close>; it occurs in \<open>src\<close>.\<close>

definition substr_at :: "string \<Rightarrow> nat \<Rightarrow> string \<Rightarrow> bool" where
  "substr_at src k v = (take (length v) (drop k src) = v)"


text \<open>
  The value of a string whose text after the opening quote \<open>q\<close> is given: the characters
  up to the next \<open>q\<close> or to the end, where a backslash that is not the last character
  stands with the character after it for the character \<open>escape_map\<close> gives (that
  character itself when it is not in the map).
\<close>

fun string_value :: "char \<Rightarrow> string \<Rightarrow> string" where
  "string_value q [] = []"
| "string_value q [c] = (if c = q then [] else [c])"
| "string_value q (c # e # cs) =
     (if c = q then []
      else if c = CHR 0x5C then escape_map_get e # string_value q cs
      else c # string_value q (e # cs))"

definition string_content :: "string \<Rightarrow> nat \<Rightarrow> string \<Rightarrow> bool" where
  "string_content src k v =
     (src ! k \<in> set [CHR 0x22, CHR 0x27] \<and> v = string_value (src ! k) (drop (Suc k) src))"

text \<open>
  What a token has to do with the source text at the index \<open>k\<close> where its scan began: its
  line and column are those of index \<open>k\<close>, and its value is, by its kind, the content of
  the string opened at \<open>k\<close>, the one character at \<open>k\<close>, or the text at \<open>k\<close>, for a float
  with \<open>0\<close> appended when that text ends with a point.
\<close>

definition lexeme_at :: "string \<Rightarrow> nat \<Rightarrow> Token \<Rightarrow> bool" where
  "lexeme_at src k t =
     ((tok_line t, tok_column t) = pos_of src k
      \<and> (if tok_type t = STRING then string_content src k (tok_value t)
         else if tok_type t = ERROR then
           tok_value t = [src ! k] \<or> string_content src k (tok_value t)
         else if tok_type t = FLOAT then
           tok_value t \<noteq> []
           \<and> (substr_at src k (tok_value t)
              \<or> (last (tok_value t) = CHR ''0'' \<and> endswith_dot (butlast (tok_value t))
                 \<and> substr_at src k (butlast (tok_value t))))
         else tok_value t \<noteq> [] \<and> substr_at src k (tok_value t)))"

definition token_ok :: "string \<Rightarrow> Token \<Rightarrow> bool" where
  "token_ok src t = list_ex (\<lambda>k. lexeme_at src k t) [0..<length src]"

text \<open>The lexer is at a position of the source text \<open>src\<close>, with its line and column.\<close>

definition lex_inv :: "string \<Rightarrow> Lexer \<Rightarrow> bool" where
  "lex_inv src s =
     (source s = src \<and> position s \<le> length src
      \<and> pos_of src (position s) = (line s, column s)
      \<and> current_char s = (if position s < length src then Some (src ! position s) else None))"

lemma pos_of_Suc: "k < length src \<Longrightarrow> pos_of src (Suc k) = next_pos (pos_of src k) (src ! k)"
  by (simp add: pos_of_def take_Suc_conv_app_nth)

lemma lex_inv_init: "lex_inv src (Lexer_init src)"
  by (simp add: lex_inv_def Lexer_init_def pos_of_def)

lemma lex_inv_current:
  "lex_inv src s \<Longrightarrow> current_char s = Some c \<Longrightarrow> position s < length src \<and> c = src ! position s"
  by (auto simp: lex_inv_def split: if_splits)

lemma position_advance: "position (advance s) = Suc (position s)"
  by (simp add: advance_def Let_def)

lemma current_char_advance: "current_char (advance s) = peek s"
  by (simp add: advance_def peek_def Let_def)

lemma lex_inv_advance:
  assumes "lex_inv src s" and "current_char s = Some c"
  shows "lex_inv src (advance s)"
proof -
  have p: "position s < length src" and c: "c = src ! position s"
    using lex_inv_current [OF assms] by simp_all
  have "pos_of src (position s) = (line s, column s)" and "source s = src"
    using assms(1) by (simp_all add: lex_inv_def)
  then show ?thesis
    using p c assms(2) pos_of_Suc [OF p]
    by (auto simp: lex_inv_def advance_def Let_def next_pos_def)
qed

lemma lex_inv_advance2:
  assumes "lex_inv src s" and "current_char s = Some c" and "peek s = Some x"
  shows "lex_inv src (advance (advance s))"
proof -
  have "current_char (advance s) = Some x" using assms(3) by (simp add: current_char_advance)
  then show ?thesis using lex_inv_advance [OF lex_inv_advance [OF assms(1,2)]] by simp
qed

lemma lex_inv_advance_Some:
  "lex_inv src s \<Longrightarrow> current_char s \<noteq> None \<Longrightarrow> lex_inv src (advance s)"
  using lex_inv_advance by blast

lemma lex_inv_advance2_Some:
  "lex_inv src s \<Longrightarrow> current_char s \<noteq> None \<Longrightarrow> peek s \<noteq> None \<Longrightarrow>
     lex_inv src (advance (advance s))"
  using lex_inv_advance2 by blast

lemma lex_inv_peek:
  assumes "lex_inv src s" and "peek s = Some x"
  shows "Suc (position s) < length src \<and> x = src ! Suc (position s)"
  using assms by (auto simp: lex_inv_def peek_def Let_def split: if_splits)

lemma skip_whitespace_inv: "lex_inv src s \<Longrightarrow> lex_inv src (skip_whitespace s)"
proof (induction s rule: skip_whitespace.induct)
  case (1 s)
  show ?case
  proof (cases "current_char s")
    case None
    then show ?thesis using 1 by (subst skip_whitespace.simps) simp
  next
    case (Some c)
    show ?thesis
    proof (cases "isspace c")
      case True
      have "lex_inv src (skip_whitespace (advance s))"
        using "1.IH" [OF Some True] lex_inv_advance [OF "1.prems" Some] by simp
      then show ?thesis using Some True by (subst skip_whitespace.simps) simp
    next
      case False
      then show ?thesis using Some 1 by (subst skip_whitespace.simps) simp
    qed
  qed
qed

lemma line_comment_loop_inv: "lex_inv src s \<Longrightarrow> lex_inv src (line_comment_loop s)"
proof (induction s rule: line_comment_loop.induct)
  case (1 s)
  show ?case
  proof (cases "current_char s")
    case None
    then show ?thesis using 1 by (subst line_comment_loop.simps) simp
  next
    case (Some c)
    show ?thesis
    proof (cases "c = CHR 0x0A")
      case True
      then show ?thesis using Some 1 by (subst line_comment_loop.simps) simp
    next
      case False
      have "lex_inv src (line_comment_loop (advance s))"
        using "1.IH" [OF Some False] lex_inv_advance [OF "1.prems" Some] by simp
      then show ?thesis using Some False by (subst line_comment_loop.simps) simp
    qed
  qed
qed

lemma block_comment_loop_inv: "lex_inv src s \<Longrightarrow> lex_inv src (block_comment_loop s)"
proof (induction s rule: block_comment_loop.induct)
  case (1 s)
  show ?case
  proof (cases "current_char s")
    case None
    then show ?thesis using 1 by (subst block_comment_loop.simps) simp
  next
    case (Some c)
    show ?thesis
    proof (cases "c = CHR ''*'' \<and> peek s = Some (CHR ''/'')")
      case True
      then have "lex_inv src (advance (advance s))"
        using lex_inv_advance2 [OF "1.prems" Some] by simp
      then show ?thesis using Some True by (subst block_comment_loop.simps) simp
    next
      case False
      have "lex_inv src (block_comment_loop (advance s))"
        using "1.IH" [OF Some False] lex_inv_advance [OF "1.prems" Some] by simp
      then show ?thesis using Some False by (subst block_comment_loop.simps) auto
    qed
  qed
qed

lemma skip_comment_inv: "lex_inv src s \<Longrightarrow> lex_inv src (skip_comment s)"
  by (auto simp: skip_comment_def line_comment_loop_inv block_comment_loop_inv lex_inv_advance2)

lemma take_drop_step:
  assumes "p < length src" and "Suc p \<le> p'"
  shows "take (p' - p) (drop p src) = src ! p # take (p' - Suc p) (drop (Suc p) src)"
proof -
  have "p' - p = Suc (p' - Suc p)" using assms(2) by simp
  moreover have "drop p src = src ! p # drop (Suc p) src"
    using assms(1) by (simp add: Cons_nth_drop_Suc)
  ultimately show ?thesis by simp
qed

lemma substr_at_take: "substr_at src k (take n (drop k src))"
  by (simp add: substr_at_def min_def)

lemma substr_at_1: "p < length src \<Longrightarrow> substr_at src p [src ! p]"
  by (simp add: substr_at_def take_Suc_conv_app_nth Cons_nth_drop_Suc [symmetric])

lemma substr_at_2: "Suc p < length src \<Longrightarrow> substr_at src p [src ! p, src ! Suc p]"
  by (simp add: substr_at_def Cons_nth_drop_Suc [symmetric])

lemma token_okI: "k < length src \<Longrightarrow> lexeme_at src k t \<Longrightarrow> token_ok src t"
  by (auto simp: token_ok_def list_ex_iff)

lemma identifier_loop_inv:
  "lex_inv src s \<Longrightarrow>
     lex_inv src (snd (identifier_loop s r))
     \<and> position s \<le> position (snd (identifier_loop s r))
     \<and> fst (identifier_loop s r)
         = r @ take (position (snd (identifier_loop s r)) - position s) (drop (position s) src)"
proof (induction s r rule: identifier_loop.induct)
  case (1 s r)
  show ?case
  proof (cases "current_char s")
    case None
    then show ?thesis using 1 by (subst (1 2 3 4) identifier_loop.simps) simp
  next
    case (Some c)
    show ?thesis
    proof (cases "isalnum c \<or> c = CHR ''_''")
      case True
      have eq: "identifier_loop s r = identifier_loop (advance s) (r @ [c])"
        using Some True by (subst identifier_loop.simps) simp
      have p: "position s < length src" and c: "c = src ! position s"
        using lex_inv_current [OF "1.prems" Some] by simp_all
      note ih = "1.IH" [OF Some True lex_inv_advance [OF "1.prems" Some]]
      have le: "Suc (position s) \<le> position (snd (identifier_loop (advance s) (r @ [c])))"
        using ih by (simp add: position_advance)
      show ?thesis
        unfolding eq using ih le c take_drop_step [OF p le]
        by (simp add: position_advance)
    next
      case False
      then show ?thesis using Some 1 by (subst (1 2 3 4) identifier_loop.simps) simp
    qed
  qed
qed

lemma number_loop_inv:
  "lex_inv src s \<Longrightarrow>
     lex_inv src (snd (snd (number_loop s r f)))
     \<and> position s \<le> position (snd (snd (number_loop s r f)))
     \<and> fst (number_loop s r f)
         = r @ take (position (snd (snd (number_loop s r f))) - position s) (drop (position s) src)
     \<and> (f \<or> CHR ''.'' \<notin> set r \<longrightarrow>
          fst (snd (number_loop s r f)) \<or> CHR ''.'' \<notin> set (fst (number_loop s r f)))"
proof (induction s r f rule: number_loop.induct)
  case (1 s r f)
  show ?case
  proof (cases "current_char s")
    case None
    then show ?thesis using 1 by (subst (1 2 3 4 5 6) number_loop.simps) simp
  next
    case (Some c)
    show ?thesis
    proof (cases "(isdigit c \<or> c = CHR ''.'') \<and> \<not> (c = CHR ''.'' \<and> f)")
      case True
      have eq: "number_loop s r f = number_loop (advance s) (r @ [c]) (f \<or> c = CHR ''.'')"
        using Some True by (subst number_loop.simps) auto
      have p: "position s < length src" and c: "c = src ! position s"
        using lex_inv_current [OF "1.prems" Some] by simp_all
      have ih: "lex_inv src (snd (snd (number_loop (advance s) (r @ [c]) (f \<or> c = CHR ''.''))))
         \<and> position (advance s)
             \<le> position (snd (snd (number_loop (advance s) (r @ [c]) (f \<or> c = CHR ''.''))))
         \<and> fst (number_loop (advance s) (r @ [c]) (f \<or> c = CHR ''.''))
             = (r @ [c]) @ take (position (snd (snd (number_loop (advance s) (r @ [c])
                                    (f \<or> c = CHR ''.'')))) - position (advance s))
                              (drop (position (advance s)) src)
         \<and> ((f \<or> c = CHR ''.'') \<or> CHR ''.'' \<notin> set (r @ [c]) \<longrightarrow>
              fst (snd (number_loop (advance s) (r @ [c]) (f \<or> c = CHR ''.'')))
              \<or> CHR ''.'' \<notin> set (fst (number_loop (advance s) (r @ [c]) (f \<or> c = CHR ''.''))))"
        using True by (intro "1.IH" [OF Some _ _ lex_inv_advance [OF "1.prems" Some]]) auto
      have le: "Suc (position s)
                  \<le> position (snd (snd (number_loop (advance s) (r @ [c]) (f \<or> c = CHR ''.''))))"
        using ih by (simp add: position_advance)
      show ?thesis
        unfolding eq using ih le c take_drop_step [OF p le]
        by (auto simp: position_advance)
    next
      case False
      then have "number_loop s r f = (r, f, s)"
        using Some by (subst number_loop.simps) auto
      then show ?thesis using 1 by simp
    qed
  qed
qed

lemma lex_inv_peek_None:
  assumes "lex_inv src s" and "peek s = None"
  shows "length src \<le> Suc (position s)"
  using assms by (auto simp: lex_inv_def peek_def Let_def split: if_splits)

lemma string_loop_inv:
  "lex_inv src s \<Longrightarrow>
     lex_inv src (snd (string_loop s q r))
     \<and> fst (string_loop s q r) = r @ string_value q (drop (position s) src)"
proof (induction s q r rule: string_loop.induct)
  case (1 s q r)
  show ?case
  proof (cases "current_char s")
    case None
    then have "drop (position s) src = []"
      using "1.prems" by (auto simp: lex_inv_def split: if_splits)
    then show ?thesis using None 1 by (subst (1 2) string_loop.simps) simp
  next
    case (Some c)
    have p: "position s < length src" and c: "c = src ! position s"
      using lex_inv_current [OF "1.prems" Some] by simp_all
    have d: "drop (position s) src = c # drop (Suc (position s)) src"
      using p c by (simp add: Cons_nth_drop_Suc)
    show ?thesis
    proof (cases "c = q")
      case True
      have "string_value q (c # drop (Suc (position s)) src) = []"
        using True by (cases "drop (Suc (position s)) src") simp_all
      then show ?thesis using Some True 1 d by (subst (1 2) string_loop.simps) simp
    next
      case False
      show ?thesis
      proof (cases "if c = CHR 0x5C then peek s else None")
        case None
        have eq: "string_loop s q r = string_loop (advance s) q (r @ [c])"
          using Some False None by (subst string_loop.simps) simp
        note ih = "1.IH"(1) [OF Some False None lex_inv_advance [OF "1.prems" Some]]
        have "string_value q (c # drop (Suc (position s)) src)
                = c # string_value q (drop (Suc (position s)) src)"
        proof (cases "drop (Suc (position s)) src")
          case Nil
          then show ?thesis using False by simp
        next
          case (Cons e cs)
          then have "Suc (position s) < length src" by (cases "Suc (position s) < length src") auto
          then have "peek s \<noteq> None"
            using "1.prems" by (simp add: peek_def lex_inv_def Let_def)
          then have "c \<noteq> CHR 0x5C" using None by auto
          then show ?thesis using False Cons by simp
        qed
        then show ?thesis
          unfolding eq using ih d by (simp add: position_advance)
      next
        case (Some e)
        have bs: "c = CHR 0x5C" and pk: "peek s = Some e"
          using Some by (simp_all split: if_splits)
        have eq: "string_loop s q r = string_loop (advance (advance s)) q (r @ [escape_map_get e])"
          using \<open>current_char s = Some c\<close> False Some by (subst string_loop.simps) simp
        note ih = "1.IH"(2) [OF \<open>current_char s = Some c\<close> False Some
                     lex_inv_advance2 [OF "1.prems" \<open>current_char s = Some c\<close> pk]]
        have q: "Suc (position s) < length src" and e: "e = src ! Suc (position s)"
          using lex_inv_peek [OF "1.prems" pk] by simp_all
        have d2: "drop (Suc (position s)) src = e # drop (Suc (Suc (position s))) src"
          using q e by (simp add: Cons_nth_drop_Suc)
        have "string_value q (c # e # drop (Suc (Suc (position s))) src)
                = escape_map_get e # string_value q (drop (Suc (Suc (position s))) src)"
          using False bs by simp
        then show ?thesis
          unfolding eq using ih d d2 by (simp add: position_advance)
      qed
    qed
  qed
qed

lemma keywords_map_kind:
  "map_of keywords_map k = Some t \<Longrightarrow> t \<noteq> STRING \<and> t \<noteq> ERROR \<and> t \<noteq> FLOAT"
  by (drule map_of_SomeD) (auto simp: keywords_map_def)

lemma keywords_get_kind:
  "keywords_get k IDENTIFIER \<noteq> STRING \<and> keywords_get k IDENTIFIER \<noteq> ERROR
   \<and> keywords_get k IDENTIFIER \<noteq> FLOAT"
  using keywords_map_kind [of k] by (auto simp: keywords_get_def split: option.splits)

lemma identifier_tok_ok:
  assumes "lex_inv src s" and "current_char s = Some c" and "isalpha c \<or> c = CHR ''_''"
  shows "lex_inv src (snd (identifier_tok s)) \<and> token_ok src (fst (identifier_tok s))"
proof -
  have p: "position s < length src" using lex_inv_current [OF assms(1,2)] by simp
  have pos: "pos_of src (position s) = (line s, column s)"
    using assms(1) by (simp add: lex_inv_def)
  have step: "identifier_loop s [] = identifier_loop (advance s) [c]"
    using assms(2,3) by (subst identifier_loop.simps) (auto simp: isalpha_isalnum)
  have ne: "fst (identifier_loop s []) \<noteq> []"
    unfolding step
    using identifier_loop_inv [OF lex_inv_advance [OF assms(1,2)], of "[c]"] by auto
  note inv = identifier_loop_inv [OF assms(1), of "[]"]
  have sub: "substr_at src (position s) (fst (identifier_loop s []))"
    using inv substr_at_take [of src "position s"] by simp
  have "lexeme_at src (position s) (fst (identifier_tok s))"
    using ne sub pos keywords_get_kind [of "fst (identifier_loop s [])"]
    by (simp add: lexeme_at_def identifier_tok_def Let_def case_prod_beta mkToken_def)
  then show ?thesis
    using inv token_okI [OF p] by (simp add: identifier_tok_def Let_def case_prod_beta)
qed

lemma number_ok:
  assumes "lex_inv src s" and "current_char s = Some c" and "isdigit c"
  shows "lex_inv src (snd (number s)) \<and> token_ok src (fst (number s))"
proof -
  have p: "position s < length src" using lex_inv_current [OF assms(1,2)] by simp
  have pos: "pos_of src (position s) = (line s, column s)"
    using assms(1) by (simp add: lex_inv_def)
  have step: "number_loop s [] False = number_loop (advance s) [c] (c = CHR ''.'')"
    using assms(2,3) by (subst number_loop.simps) auto
  have ne: "fst (number_loop s [] False) \<noteq> []"
    unfolding step
    using number_loop_inv [OF lex_inv_advance [OF assms(1,2)], of "[c]" "c = CHR ''.''"] by auto
  note inv = number_loop_inv [OF assms(1), of "[]" False]
  have sub: "substr_at src (position s) (fst (number_loop s [] False))"
    using inv substr_at_take [of src "position s"] by simp
  have "CHR ''.'' \<notin> set []" by simp
  then have flag: "fst (snd (number_loop s [] False))
                     \<or> CHR ''.'' \<notin> set (fst (number_loop s [] False))"
    using inv by blast
  have dot: "endswith_dot (fst (number_loop s [] False)) \<Longrightarrow> fst (snd (number_loop s [] False))"
    using flag last_in_set [of "fst (number_loop s [] False)"] by (auto simp: endswith_dot_def)
  have "lexeme_at src (position s) (fst (number s))"
    using ne sub pos dot
    by (auto simp: lexeme_at_def number_def Let_def case_prod_beta mkToken_def)
  then show ?thesis
    using inv token_okI [OF p] by (simp add: number_def Let_def case_prod_beta)
qed

lemma string_tok_ok:
  assumes "lex_inv src s" and "current_char s = Some c" and "c = CHR 0x22 \<or> c = CHR 0x27"
  shows "lex_inv src (snd (string_tok s)) \<and> token_ok src (fst (string_tok s))"
proof -
  have p: "position s < length src" and c: "c = src ! position s"
    using lex_inv_current [OF assms(1,2)] by simp_all
  have pos: "pos_of src (position s) = (line s, column s)"
    using assms(1) by (simp add: lex_inv_def)
  note inv = string_loop_inv [OF lex_inv_advance [OF assms(1,2)], of c "[]"]
  have content: "string_content src (position s) (fst (string_loop (advance s) c []))"
    using inv c assms(3)
    by (auto simp: string_content_def position_advance)
  have lex: "lexeme_at src (position s) (fst (string_tok s))"
    using content pos assms(2)
    by (simp add: lexeme_at_def string_tok_def Let_def case_prod_beta mkToken_def)
  have "lex_inv src (snd (string_tok s))"
  proof (cases "current_char (snd (string_loop (advance s) c []))")
    case None
    then show ?thesis using inv assms(2) by (simp add: string_tok_def Let_def case_prod_beta)
  next
    case (Some d)
    have "lex_inv src (advance (snd (string_loop (advance s) c [])))"
      using inv Some lex_inv_advance by blast
    then show ?thesis using Some assms(2) by (simp add: string_tok_def Let_def case_prod_beta)
  qed
  then show ?thesis using lex token_okI [OF p] by simp
qed

lemma op1_ok:
  assumes "lex_inv src s" and "current_char s = Some c"
    and "ty \<noteq> STRING" and "ty \<noteq> ERROR" and "ty \<noteq> FLOAT"
  shows "token_ok src (mkToken ty [c] (line s) (column s))"
proof -
  have p: "position s < length src" and c: "c = src ! position s"
    using lex_inv_current [OF assms(1,2)] by simp_all
  have pos: "pos_of src (position s) = (line s, column s)"
    using assms(1) by (simp add: lex_inv_def)
  have "lexeme_at src (position s) (mkToken ty [c] (line s) (column s))"
    using pos c assms(3-5) substr_at_1 [OF p] by (simp add: lexeme_at_def mkToken_def)
  then show ?thesis by (rule token_okI [OF p])
qed

lemma op2_ok:
  assumes "lex_inv src s" and "current_char s = Some c" and "peek s = Some x"
    and "ty \<noteq> STRING" and "ty \<noteq> ERROR" and "ty \<noteq> FLOAT"
  shows "token_ok src (mkToken ty [c, x] (line s) (column s))"
proof -
  have p: "position s < length src" and c: "c = src ! position s"
    using lex_inv_current [OF assms(1,2)] by simp_all
  have q: "Suc (position s) < length src" and x: "x = src ! Suc (position s)"
    using lex_inv_peek [OF assms(1,3)] by simp_all
  have pos: "pos_of src (position s) = (line s, column s)"
    using assms(1) by (simp add: lex_inv_def)
  have "lexeme_at src (position s) (mkToken ty [c, x] (line s) (column s))"
    using pos c x assms(4-6) substr_at_2 [OF q] by (simp add: lexeme_at_def mkToken_def)
  then show ?thesis by (rule token_okI [OF p])
qed

lemma error_ok:
  assumes "lex_inv src s" and "current_char s = Some c"
  shows "token_ok src (mkToken ERROR [c] (line s) (column s))"
proof -
  have p: "position s < length src" and c: "c = src ! position s"
    using lex_inv_current [OF assms(1,2)] by simp_all
  have pos: "pos_of src (position s) = (line s, column s)"
    using assms(1) by (simp add: lex_inv_def)
  have "lexeme_at src (position s) (mkToken ERROR [c] (line s) (column s))"
    using pos c by (simp add: lexeme_at_def mkToken_def)
  then show ?thesis by (rule token_okI [OF p])
qed

lemma identify_token_ok:
  assumes "lex_inv src s" and "current_char s = Some c"
  shows "lex_inv src (snd (identify_token s c)) \<and> token_ok src (fst (identify_token s c))"
proof (cases "isalpha c \<or> c = CHR ''_''")
  case True
  then show ?thesis
    using identifier_tok_ok [OF assms True] by (simp add: identify_token_def)
next
  case na: False
  show ?thesis
  proof (cases "isdigit c")
    case True
    then show ?thesis using na number_ok [OF assms True] by (simp add: identify_token_def)
  next
    case nd: False
    show ?thesis
    proof (cases "c = CHR 0x22 \<or> c = CHR 0x27")
      case True
      then show ?thesis
        using na nd string_tok_ok [OF assms True] by (auto simp: identify_token_def)
    next
      case nq: False
      show ?thesis
        using assms na nd nq
        by (auto simp: identify_token_def Let_def op1_ok op2_ok error_ok
              lex_inv_advance_Some lex_inv_advance2_Some)
    qed
  qed
qed


subsection \<open>The characters at which the loop of tokenize stands\<close>

text \<open>
  The lexer states at the head of the iterations of the \<open>while\<close> loop of \<open>tokenize\<close>, in
  order: the loop goes from one to the next by \<open>skip_whitespace\<close>, by \<open>skip_comment\<close> or
  by the scan of one token. Their current characters are the characters of the source
  that are not inside a token, a white space run or a comment begun earlier.
\<close>

function scan_heads :: "Lexer \<Rightarrow> Lexer list" where
  "scan_heads s =
     (case current_char s of
        None \<Rightarrow> []
      | Some c \<Rightarrow>
          if isspace c then s # scan_heads (skip_whitespace s)
          else if c = CHR ''/'' \<and> (peek s = Some (CHR ''/'') \<or> peek s = Some (CHR ''*''))
            then s # scan_heads (skip_comment s)
          else s # scan_heads (snd (identify_token s c)))"
  by pat_completeness auto
termination
  by (relation "measure lex_rest")
     (auto simp: skip_whitespace_rest_less skip_comment_rest identify_token_rest)

declare scan_heads.simps [simp del]

lemma scan_heads_None: "current_char s = None \<Longrightarrow> scan_heads s = []"
  by (subst scan_heads.simps) simp

lemma scan_heads_space:
  "current_char s = Some c \<Longrightarrow> isspace c \<Longrightarrow> scan_heads s = s # scan_heads (skip_whitespace s)"
  by (subst scan_heads.simps) simp

lemma scan_heads_comment:
  "current_char s = Some c \<Longrightarrow> \<not> isspace c \<Longrightarrow>
     c = CHR ''/'' \<and> (peek s = Some (CHR ''/'') \<or> peek s = Some (CHR ''*'')) \<Longrightarrow>
     scan_heads s = s # scan_heads (skip_comment s)"
  by (subst scan_heads.simps) auto

lemma scan_heads_token:
  "current_char s = Some c \<Longrightarrow> \<not> isspace c \<Longrightarrow>
     \<not> (c = CHR ''/'' \<and> (peek s = Some (CHR ''/'') \<or> peek s = Some (CHR ''*''))) \<Longrightarrow>
     scan_heads s = s # scan_heads (snd (identify_token s c))"
  by (subst scan_heads.simps) auto

lemma tokenize_loop_mono:
  "t \<in> set toks \<Longrightarrow> t \<in> set (fst (tokenize_loop s toks))"
  using tokenize_loop_prefix [of s toks] by auto

lemma scan_heads_error_token:
  "s' \<in> set (scan_heads s) \<Longrightarrow> current_char s' = Some ch \<Longrightarrow> no_token_rule s' ch \<Longrightarrow>
     mkToken ERROR [ch] (line s') (column s') \<in> set (fst (tokenize_loop s toks))"
proof (induction s toks rule: tokenize_loop.induct)
  case (1 s toks)
  show ?case
  proof (cases "current_char s")
    case None
    then show ?thesis using "1.prems"(1) by (simp add: scan_heads_None)
  next
    case (Some c)
    show ?thesis
    proof (cases "s' = s")
      case True
      have "mkToken ERROR [ch] (line s) (column s)
              \<in> set (fst (tokenize_loop (advance s)
                            (toks @ [mkToken ERROR [ch] (line s) (column s)])))"
        by (rule tokenize_loop_mono) simp
      then show ?thesis
        using "1.prems"(2,3) True no_token_rule_step [of s ch toks] by simp
    next
      case ne: False
      show ?thesis
      proof (cases "isspace c")
        case True
        have "s' \<in> set (scan_heads (skip_whitespace s))"
          using "1.prems"(1) ne by (simp add: scan_heads_space [OF Some True])
        then show ?thesis
          using "1.IH"(1) [OF Some True _ "1.prems"(2,3)]
          by (simp add: tokenize_loop_space [OF Some True])
      next
        case False
        show ?thesis
        proof (cases "c = CHR ''/'' \<and> (peek s = Some (CHR ''/'') \<or> peek s = Some (CHR ''*''))")
          case True
          have "s' \<in> set (scan_heads (skip_comment s))"
            using "1.prems"(1) ne by (simp add: scan_heads_comment [OF Some False True])
          then show ?thesis
            using "1.IH"(2) [OF Some False True _ "1.prems"(2,3)]
            by (simp add: tokenize_loop_comment [OF Some False True])
        next
          case nc: False
          have "s' \<in> set (scan_heads (snd (identify_token s c)))"
            using "1.prems"(1) ne by (simp add: scan_heads_token [OF Some False nc])
          then show ?thesis
            using "1.IH"(3) [OF Some False nc _ "1.prems"(2,3)]
            by (simp add: tokenize_loop_token [OF Some False nc])
        qed
      qed
    qed
  qed
qed

lemma scan_heads_inv: "lex_inv src s \<Longrightarrow> s' \<in> set (scan_heads s) \<Longrightarrow> lex_inv src s'"
proof (induction s rule: scan_heads.induct)
  case (1 s)
  show ?case
  proof (cases "current_char s")
    case None
    then show ?thesis using "1.prems"(2) by (simp add: scan_heads_None)
  next
    case (Some c)
    show ?thesis
    proof (cases "s' = s")
      case True
      then show ?thesis using "1.prems"(1) by simp
    next
      case ne: False
      show ?thesis
      proof (cases "isspace c")
        case True
        have "s' \<in> set (scan_heads (skip_whitespace s))"
          using "1.prems"(2) ne by (simp add: scan_heads_space [OF Some True])
        then show ?thesis
          using "1.IH"(1) [OF Some True skip_whitespace_inv [OF "1.prems"(1)]] by simp
      next
        case False
        show ?thesis
        proof (cases "c = CHR ''/'' \<and> (peek s = Some (CHR ''/'') \<or> peek s = Some (CHR ''*''))")
          case True
          have "s' \<in> set (scan_heads (skip_comment s))"
            using "1.prems"(2) ne by (simp add: scan_heads_comment [OF Some False True])
          then show ?thesis
            using "1.IH"(2) [OF Some False True skip_comment_inv [OF "1.prems"(1)]] by simp
        next
          case nc: False
          have "s' \<in> set (scan_heads (snd (identify_token s c)))"
            using "1.prems"(2) ne by (simp add: scan_heads_token [OF Some False nc])
          then show ?thesis
            using "1.IH"(3) [OF Some False nc
                    conjunct1 [OF identify_token_ok [OF "1.prems"(1) Some]]] by simp
        qed
      qed
    qed
  qed
qed

section \<open>Claims\<close>

subsection \<open>C1: the pipeline on a variable declaration\<close>

text \<open>
  C1, as stated: the pipeline on the source text \<open>var x: Int = 42;\<close> yields no parse
  error, no type error, no semantic error and one Definition of \<open>x\<close>. On the code this
  fails: \<open>statement\<close> and \<open>expression\<close> parse a primary followed by a semicolon only, so
  \<open>var\<close> is read as an identifier, the token \<open>x\<close> at (1,5) is reported where the
  semicolon is expected, the program is empty, and the only Definition is the built-in
  \<open>print\<close>.
\<close>

theorem C1_pipeline_counterexample:
  "analyze_document ''var x: Int = 42;'' =
     Inr ([(mkToken IDENTIFIER ''x'' 1 5, ''Expected '' @ quoted '';'' @ '' after expression.'')],
          [],
          \<lparr>info_definitions =
             [(''print'',
               [\<lparr>def_name = ''print'', kind = ''function'', location = mkLocation 0 0,
                  def_type_name = ''Void'',
                  detail = ''Built-in function: print(value: Any) -> Void''\<rparr>])],
           info_references = [], info_errors = []\<rparr>)"
  by code_simp

text \<open>
  C1, amended: on that source text the parser reports one error and returns the empty
  program, on which both analyzers report nothing and record no Definition of \<open>x\<close>; on the
  program that holds the declaration node itself (a \<open>VariableDeclaration\<close> at (1,1) of
  \<open>x\<close> with annotation \<open>Int\<close> and initializer 42) the type checker and the semantic
  analyzer report no error, and the Definitions recorded for \<open>x\<close> are exactly one, with
  kind \<open>variable\<close>, type_name \<open>Int\<close> and location (1,1).
\<close>

theorem C1_pipeline_amended:
  "fst (parse (Parser_init ''var x: Int = 42;'')) = Inr (Program [])
   \<and> parse_errors (snd (parse (Parser_init ''var x: Int = 42;'')))
       = [(mkToken IDENTIFIER ''x'' 1 5, ''Expected '' @ quoted '';'' @ '' after expression.'')]
   \<and> fst (tc_check TypeChecker_init (Program [])) = []
   \<and> info_errors (fst (analyze SemanticAnalyzer_init (Program []))) = []
   \<and> map_of (info_definitions (fst (analyze SemanticAnalyzer_init (Program [])))) ''x'' = None
   \<and> fst (tc_check TypeChecker_init
        (Program [VariableDeclaration (Ident ''x'' 1 5) (Some ''Int'')
                    (Some (IntegerLiteral 42 1 14)) 1 1])) = []
   \<and> info_errors (fst (analyze SemanticAnalyzer_init
        (Program [VariableDeclaration (Ident ''x'' 1 5) (Some ''Int'')
                    (Some (IntegerLiteral 42 1 14)) 1 1]))) = []
   \<and> map_of (info_definitions (fst (analyze SemanticAnalyzer_init
        (Program [VariableDeclaration (Ident ''x'' 1 5) (Some ''Int'')
                    (Some (IntegerLiteral 42 1 14)) 1 1])))) ''x''
       = Some [\<lparr>def_name = ''x'', kind = ''variable'', location = mkLocation 1 1,
                 def_type_name = ''Int'', detail = []\<rparr>]"
  by code_simp

subsection \<open>C3: assignment\<close>

text \<open>
  C3 says that an assignment whose target resolves to a symbol that is not a variable
  produces a type error. \<open>visit_assignment_expression\<close> tests the kind of the symbol only
  to read \<open>is_mutable\<close>; with the built-in function \<open>print\<close> as target and a value of
  its return type \<open>Void\<close> (a call of \<open>print\<close>), the checker reports nothing.
\<close>

theorem C3_assignment_to_function_no_error:
  "fst (tc_check TypeChecker_init
     (Program
        [ExpressionStatement
           (AssignmentExpression (Identifier (Ident ''print'' 1 1))
              (CallExpression (Identifier (Ident ''print'' 1 9)) [IntegerLiteral 1 1 15] 1 9)
              1 1)
           1 1])) = []"
  by code_simp

subsection \<open>C4: parse never propagates an exception\<close>

text \<open>
  C4 says that \<open>parse\<close> returns a Program for every source text. The lexer takes every
  \<open>isdigit\<close> character into an INTEGER token, \<open>primary\<close> converts the token with
  \<open>int\<close>, and \<open>parse\<close> catches \<open>ParseError\<close> only: on the one-character source text
  U+00B2 (superscript two) the \<open>ValueError\<close> of \<open>int\<close> leaves \<open>parse\<close>.
\<close>

theorem C4_parse_propagates_ValueError:
  "tokenize (Lexer_init [CHR 0xB2]) = [mkToken INTEGER [CHR 0xB2] 1 1, mkToken EOF [] 1 2]
   \<and> fst (parse (Parser_init [CHR 0xB2])) = Inl ValueError"
  by code_simp

subsection \<open>C5: the type of a binary expression\<close>

text \<open>
  C5: for every \<open>BinaryExpression\<close> node, with the operands visited left then right, the
  type computed by \<open>visit_binary_expression\<close> is the one of \<open>binary_type_spec\<close>: for
  \<open>+ - * /\<close>, Int when both operand types are Int, Float when both are in {Int, Float} and
  not both Int, String when the operator is \<open>+\<close> and an operand type is String; for
  \<open>== != < > <= >=\<close> always Boolean; in these cases the checker is left as the visit of
  the operands left it, so no error is added. In every remaining case the result is
  Unknown and the error list is the one the operands left with one type error appended,
  at the line and column of the node, that names the operator and the two operand types;
  nothing else of the checker changes.
\<close>

theorem C5_binary_expression_type:
  "tc_visit_expr (BinaryExpression left opr right l c) tc =
     (case binary_type_spec opr (fst (tc_visit_expr left tc))
             (fst (tc_visit_expr right (snd (tc_visit_expr left tc)))) of
        Some t \<Rightarrow> (t, snd (tc_visit_expr right (snd (tc_visit_expr left tc))))
      | None \<Rightarrow>
          (''Unknown'',
           (snd (tc_visit_expr right (snd (tc_visit_expr left tc))))
             \<lparr>errors :=
                errors (snd (tc_visit_expr right (snd (tc_visit_expr left tc))))
                  @ [\<lparr>message =
                        ''Cannot apply operator '' @ quoted opr @ '' to types ''
                          @ quoted (fst (tc_visit_expr left tc)) @ '' and ''
                          @ quoted (fst (tc_visit_expr right (snd (tc_visit_expr left tc)))),
                      err_line = l, err_column = c\<rparr>]\<rparr>))"
  by (simp add: binary_type_spec_def Let_def case_prod_beta add_error_def)

theorem C5_binary_expression_type_witness:
  "tc_visit_expr (BinaryExpression (IntegerLiteral 1 1 1) ''+'' (StringLiteral ''a'' 1 5) 1 3)
      TypeChecker_init = (''String'', TypeChecker_init)
   \<and> tc_visit_expr (BinaryExpression (IntegerLiteral 1 1 1) ''<'' (StringLiteral ''a'' 1 5) 1 3)
      TypeChecker_init = (''Boolean'', TypeChecker_init)
   \<and> fst (tc_visit_expr (BinaryExpression (IntegerLiteral 1 1 1) ''-'' (StringLiteral ''a'' 1 5) 1 3)
      TypeChecker_init) = ''Unknown''
   \<and> errors (snd (tc_visit_expr
        (BinaryExpression (IntegerLiteral 1 1 1) ''-'' (StringLiteral ''a'' 1 5) 1 3)
        TypeChecker_init))
       = [\<lparr>message = ''Cannot apply operator '' @ quoted ''-'' @ '' to types ''
                        @ quoted ''Int'' @ '' and '' @ quoted ''String'',
           err_line = 1, err_column = 3\<rparr>]"
  by (subst (1 2 3 4) C5_binary_expression_type)
     (simp add: binary_type_spec_def TypeChecker_init_def)

subsection \<open>C6: the scope is restored\<close>



subsection \<open>C8: the references of a found definition\<close>

text \<open>
  C8: for every state of the analyzer after \<open>analyze\<close>, every name and every location: if
  \<open>find_definition\<close> returns a Definition \<open>d\<close>, then the list returned by
  \<open>find_all_references\<close> for the name and the location of \<open>d\<close> is exactly the recorded
  references, in recorded order, whose name is the name and whose bound definition has
  the location of \<open>d\<close>; so each of its elements has that name and that location.
\<close>

theorem C8_references_of_found_definition:
  assumes "find_definition (snd (analyze sa0 program)) name loc = Some d"
  shows "find_all_references (snd (analyze sa0 program)) name (location d) =
           filter (\<lambda>r. ref_name r = name \<and> location (ref_definition r) = location d)
             (references (snd (analyze sa0 program)))
         \<and> (\<forall>r \<in> set (find_all_references (snd (analyze sa0 program)) name (location d)).
               ref_name r = name \<and> location (ref_definition r) = location d)"
  by (simp add: find_all_references_def Location_eq_iff)

theorem C8_references_of_found_definition_witness:
  "find_definition (snd (analyze SemanticAnalyzer_init
      (Program [VariableDeclaration (Ident ''x'' 1 5) (Some ''Int'') (Some (IntegerLiteral 1 1 14)) 1 1,
                ExpressionStatement (Identifier (Ident ''x'' 2 1)) 2 1]))) ''x'' (mkLocation 2 1)
     = Some \<lparr>def_name = ''x'', kind = ''variable'', location = mkLocation 1 1,
             def_type_name = ''Int'', detail = []\<rparr>
   \<and> find_all_references (snd (analyze SemanticAnalyzer_init
      (Program [VariableDeclaration (Ident ''x'' 1 5) (Some ''Int'') (Some (IntegerLiteral 1 1 14)) 1 1,
                ExpressionStatement (Identifier (Ident ''x'' 2 1)) 2 1]))) ''x'' (mkLocation 1 1)
     = filter (\<lambda>r. ref_name r = ''x'' \<and> location (ref_definition r) = mkLocation 1 1)
         (references (snd (analyze SemanticAnalyzer_init
      (Program [VariableDeclaration (Ident ''x'' 1 5) (Some ''Int'') (Some (IntegerLiteral 1 1 14)) 1 1,
                ExpressionStatement (Identifier (Ident ''x'' 2 1)) 2 1]))))"
proof -
  have h: "find_definition (snd (analyze SemanticAnalyzer_init
      (Program [VariableDeclaration (Ident ''x'' 1 5) (Some ''Int'') (Some (IntegerLiteral 1 1 14)) 1 1,
                ExpressionStatement (Identifier (Ident ''x'' 2 1)) 2 1]))) ''x'' (mkLocation 2 1)
     = Some \<lparr>def_name = ''x'', kind = ''variable'', location = mkLocation 1 1,
             def_type_name = ''Int'', detail = []\<rparr>"
    by code_simp
  have l: "location \<lparr>def_name = ''x'', kind = ''variable'', location = mkLocation 1 1,
             def_type_name = ''Int'', detail = []\<rparr> = mkLocation 1 1"
    by simp
  note t = conjunct1 [OF C8_references_of_found_definition [OF h], unfolded l]
  show ?thesis
    by (rule conjI [OF h t])
qed

subsection \<open>C9: an initializer that names the declared variable\<close>

text \<open>
  C9, as stated: when no symbol of the declared name is in scope before a declaration
  whose initializer names the declared variable, the semantic analyzer binds the
  Reference of that identifier to the declaration's own Definition. On the code this
  fails when the name has an earlier Definition: a Definition outlives the scope of its
  symbol, and a Reference is bound to the first Definition recorded for the name. After
  the block \<open>{ var x: Int = 1; }\<close> no symbol \<open>x\<close> is in scope, and in \<open>var x = x;\<close> on line 2
  the Reference at (2,9) is bound to the Definition at (1,3) of the block, not to the one
  at (2,1).
\<close>

theorem C9_self_reference_counterexample:
  "resolve (sa_symbol_table
      (sa_visit_stmt
         (BlockStatement [VariableDeclaration (Ident ''x'' 1 7) (Some ''Int'')
                            (Some (IntegerLiteral 1 1 16)) 1 3] 1 1)
         SemanticAnalyzer_init)) ''x'' = None
   \<and> info_references (fst (analyze SemanticAnalyzer_init
      (Program [BlockStatement [VariableDeclaration (Ident ''x'' 1 7) (Some ''Int'')
                                  (Some (IntegerLiteral 1 1 16)) 1 3] 1 1,
                VariableDeclaration (Ident ''x'' 2 5) None
                  (Some (Identifier (Ident ''x'' 2 9))) 2 1])))
     = [\<lparr>ref_name = ''x'', ref_location = mkLocation 2 9,
         ref_definition = \<lparr>def_name = ''x'', kind = ''variable'', location = mkLocation 1 3,
                            def_type_name = ''Int'', detail = []\<rparr>\<rparr>]
   \<and> info_errors (fst (analyze SemanticAnalyzer_init
      (Program [BlockStatement [VariableDeclaration (Ident ''x'' 1 7) (Some ''Int'')
                                  (Some (IntegerLiteral 1 1 16)) 1 3] 1 1,
                VariableDeclaration (Ident ''x'' 2 5) None
                  (Some (Identifier (Ident ''x'' 2 9))) 2 1]))) = []"
  by code_simp

text \<open>
  C9, amended: for a declaration with an initializer. If no symbol of the declared name is
  in scope in the type checker, then every identifier of that name that the type checker
  visits in the initializer gets an undefined-identifier type error at its position. The
  checker visits every identifier of the initializer (\<open>tc_visited\<close>) except: the target of
  an assignment; the value of an assignment whose target is not an identifier that
  resolves to a symbol; the arguments of a call whose callee is not an identifier that
  resolves to a function with as many parameters as the call has arguments. If no symbol
  of the declared name is in scope in the semantic analyzer, then the declaration's own
  Definition is appended to the Definitions recorded for the name, the semantic errors
  added are those of the identifiers of other names that resolve to nothing (none for the
  declared name), and the References of the declared name that the declaration records
  are, in order, one for each identifier of that name in the initializer, every one bound
  to the first Definition recorded for the name: the declaration's own when no Definition
  of the name was recorded before, the earliest of the earlier ones otherwise.
\<close>

theorem C9_self_reference_amended:
  "(resolve (symbol_table tc) (id_name name) = None \<longrightarrow>
      (\<forall>i \<in> set (tc_visited (symbol_table tc) e). id_name i = id_name name \<longrightarrow>
         undefined_identifier_error i
           \<in> set (new_errors tc
                    (tc_visit_stmt (VariableDeclaration name ann (Some e) l c) tc))))
   \<and> (resolve (sa_symbol_table sa) (id_name name) = None \<longrightarrow>
        map_of (definitions (sa_visit_stmt (VariableDeclaration name ann (Some e) l c) sa))
            (id_name name)
          = Some (earlier_definitions sa (id_name name) @ [own_definition name ann l c])
        \<and> sa_errors (sa_visit_stmt (VariableDeclaration name ann (Some e) l c) sa) =
            sa_errors sa
              @ map undefined_identifier_message
                  (filter (\<lambda>j. id_name j \<noteq> id_name name
                             \<and> resolve (sa_symbol_table sa) (id_name j) = None) (idents e))
        \<and> filter (\<lambda>r. ref_name r = id_name name)
            (new_references sa (sa_visit_stmt (VariableDeclaration name ann (Some e) l c) sa))
          = map (reference_to (bound_definition sa name ann l c))
              (filter (\<lambda>i. id_name i = id_name name) (idents e)))"
proof (intro conjI impI ballI)
  fix i
  assume "resolve (symbol_table tc) (id_name name) = None"
    "i \<in> set (tc_visited (symbol_table tc) e)" "id_name i = id_name name"
  then have "undefined_identifier_error i \<in> set (new_errors tc (snd (tc_visit_expr e tc)))"
    using tc_visited_undefined(1) [of tc "symbol_table tc" i e] by simp
  then show "undefined_identifier_error i
           \<in> set (new_errors tc (tc_visit_stmt (VariableDeclaration name ann (Some e) l c) tc))"
    by (rule tc_declaration_new_errors)
next
  assume h: "resolve (sa_symbol_table sa) (id_name name) = None"
  note eq = sa_declaration_eq [OF h, of ann e l c]
  show "map_of (definitions (sa_visit_stmt (VariableDeclaration name ann (Some e) l c) sa))
            (id_name name)
          = Some (earlier_definitions sa (id_name name) @ [own_definition name ann l c])"
    unfolding eq
    by (simp add: sa_recorded_def record_definition_definitions own_definition_def
          earlier_definitions_def)
  show "sa_errors (sa_visit_stmt (VariableDeclaration name ann (Some e) l c) sa) =
            sa_errors sa
              @ map undefined_identifier_message
                  (filter (\<lambda>j. id_name j \<noteq> id_name name
                             \<and> resolve (sa_symbol_table sa) (id_name j) = None) (idents e))"
  proof -
    have "(\<lambda>j. resolve (define_symbol (sa_symbol_table sa)
                   (VariableSymbol (id_name name) (def_type_name (own_definition name ann l c)) True))
                 (id_name j) = None)
          = (\<lambda>j. id_name j \<noteq> id_name name \<and> resolve (sa_symbol_table sa) (id_name j) = None)"
      by (auto simp: resolve_define_symbol)
    then show ?thesis
      unfolding eq by (simp add: sa_recorded_def ident_errs_def)
  qed
  show "filter (\<lambda>r. ref_name r = id_name name)
            (new_references sa (sa_visit_stmt (VariableDeclaration name ann (Some e) l c) sa))
          = map (reference_to (bound_definition sa name ann l c))
              (filter (\<lambda>i. id_name i = id_name name) (idents e))"
  proof -
    have r: "resolve (define_symbol (sa_symbol_table sa)
                   (VariableSymbol (id_name name) (def_type_name (own_definition name ann l c)) True))
               (id_name name)
             = Some (VariableSymbol (id_name name) (def_type_name (own_definition name ann l c)) True)"
      by (simp add: resolve_define_symbol)
    have refs: "references (record_definition sa (id_name name) ''variable'' (mkLocation l c)
                     (def_type_name (own_definition name ann l c)) []) = references sa"
      by (simp add: record_definition_def Let_def)
    show ?thesis
      unfolding eq new_references_def
      using ident_refs_filter [OF r sa_declaration_first, where js = "idents e"]
      by (simp add: sa_recorded_def refs)
  qed
qed

theorem C9_self_reference_amended_witness:
  "resolve (symbol_table TypeChecker_init) ''x'' = None
   \<and> Ident ''x'' 2 15 \<in> set (tc_visited (symbol_table TypeChecker_init)
        (CallExpression (Identifier (Ident ''print'' 2 9)) [Identifier (Ident ''x'' 2 15)] 2 14))
   \<and> undefined_identifier_error (Ident ''x'' 2 15)
       \<in> set (new_errors TypeChecker_init
           (tc_visit_stmt
              (VariableDeclaration (Ident ''x'' 2 5) None
                 (Some (CallExpression (Identifier (Ident ''print'' 2 9))
                          [Identifier (Ident ''x'' 2 15)] 2 14)) 2 1)
              TypeChecker_init))
   \<and> resolve (sa_symbol_table
        (sa_visit_stmt
           (BlockStatement [VariableDeclaration (Ident ''x'' 1 7) (Some ''Int'')
                              (Some (IntegerLiteral 1 1 16)) 1 3] 1 1)
           SemanticAnalyzer_init)) ''x'' = None
   \<and> filter (\<lambda>r. ref_name r = ''x'')
       (new_references
          (sa_visit_stmt
             (BlockStatement [VariableDeclaration (Ident ''x'' 1 7) (Some ''Int'')
                                (Some (IntegerLiteral 1 1 16)) 1 3] 1 1)
             SemanticAnalyzer_init)
          (sa_visit_stmt
             (VariableDeclaration (Ident ''x'' 2 5) None
                (Some (CallExpression (Identifier (Ident ''print'' 2 9))
                         [Identifier (Ident ''x'' 2 15)] 2 14)) 2 1)
             (sa_visit_stmt
                (BlockStatement [VariableDeclaration (Ident ''x'' 1 7) (Some ''Int'')
                                   (Some (IntegerLiteral 1 1 16)) 1 3] 1 1)
                SemanticAnalyzer_init)))
     = [\<lparr>ref_name = ''x'', ref_location = mkLocation 2 15,
         ref_definition = \<lparr>def_name = ''x'', kind = ''variable'', location = mkLocation 1 3,
                            def_type_name = ''Int'', detail = []\<rparr>\<rparr>]"
proof -
  define blk where "blk = sa_visit_stmt
           (BlockStatement [VariableDeclaration (Ident ''x'' 1 7) (Some ''Int'')
                              (Some (IntegerLiteral 1 1 16)) 1 3] 1 1)
           SemanticAnalyzer_init"
  have h1: "resolve (symbol_table TypeChecker_init) ''x'' = None"
    by code_simp
  have h2: "Ident ''x'' 2 15 \<in> set (tc_visited (symbol_table TypeChecker_init)
        (CallExpression (Identifier (Ident ''print'' 2 9)) [Identifier (Ident ''x'' 2 15)] 2 14))"
    by code_simp
  have h3: "resolve (sa_symbol_table blk) ''x'' = None"
    unfolding blk_def by code_simp
  have b: "map (reference_to (bound_definition blk (Ident ''x'' 2 5) None 2 1))
              (filter (\<lambda>i. id_name i = ''x'')
                 (idents (CallExpression (Identifier (Ident ''print'' 2 9))
                            [Identifier (Ident ''x'' 2 15)] 2 14)))
           = [\<lparr>ref_name = ''x'', ref_location = mkLocation 2 15,
               ref_definition = \<lparr>def_name = ''x'', kind = ''variable'', location = mkLocation 1 3,
                                  def_type_name = ''Int'', detail = []\<rparr>\<rparr>]"
    unfolding blk_def by code_simp
  note t = C9_self_reference_amended [where tc = TypeChecker_init and name = "Ident ''x'' 2 5"
      and e = "CallExpression (Identifier (Ident ''print'' 2 9)) [Identifier (Ident ''x'' 2 15)] 2 14"
      and ann = None and l = 2 and c = 1 and sa = blk, unfolded ident.sel]
  have t1: "undefined_identifier_error (Ident ''x'' 2 15)
       \<in> set (new_errors TypeChecker_init
           (tc_visit_stmt
              (VariableDeclaration (Ident ''x'' 2 5) None
                 (Some (CallExpression (Identifier (Ident ''print'' 2 9))
                          [Identifier (Ident ''x'' 2 15)] 2 14)) 2 1)
              TypeChecker_init))"
    using bspec [OF mp [OF conjunct1 [OF t] h1] h2] by simp
  have t2: "filter (\<lambda>r. ref_name r = ''x'')
       (new_references blk
          (sa_visit_stmt
             (VariableDeclaration (Ident ''x'' 2 5) None
                (Some (CallExpression (Identifier (Ident ''print'' 2 9))
                         [Identifier (Ident ''x'' 2 15)] 2 14)) 2 1) blk))
     = [\<lparr>ref_name = ''x'', ref_location = mkLocation 2 15,
         ref_definition = \<lparr>def_name = ''x'', kind = ''variable'', location = mkLocation 1 3,
                            def_type_name = ''Int'', detail = []\<rparr>\<rparr>]"
    using conjunct2 [OF conjunct2 [OF mp [OF conjunct2 [OF t] h3]]] unfolding b .
  show ?thesis
    by (rule conjI [OF h1 conjI [OF h2 conjI [OF t1 conjI [OF h3 t2 [unfolded blk_def],
              unfolded blk_def]]]])
qed

subsection \<open>C10: a declaration with no annotation and no initializer\<close>

text \<open>
  C10, as stated: for every declaration with neither annotation nor initializer the type
  checker emits no error for the declaration. On the code this fails when the name is
  already defined in the current scope: the second declaration of \<open>x\<close> below gets the
  error that \<open>x\<close> is already defined, and \<open>x\<close> keeps its type Int.
\<close>

theorem C10_bare_declaration_counterexample:
  "fst (tc_check TypeChecker_init
      (Program [VariableDeclaration (Ident ''x'' 1 5) (Some ''Int'')
                  (Some (IntegerLiteral 42 1 14)) 1 1,
                VariableDeclaration (Ident ''x'' 2 5) None None 2 1]))
     = [\<lparr>message = ''Variable '' @ quoted ''x'' @ '' is already defined in this scope'',
         err_line = 2, err_column = 1\<rparr>]
   \<and> resolve (symbol_table (snd (tc_check TypeChecker_init
      (Program [VariableDeclaration (Ident ''x'' 1 5) (Some ''Int'')
                  (Some (IntegerLiteral 42 1 14)) 1 1,
                VariableDeclaration (Ident ''x'' 2 5) None None 2 1])))) ''x''
     = Some (VariableSymbol ''x'' ''Int'' True)"
  by code_simp

text \<open>
  C10, amended: for a declaration with neither annotation nor initializer. If the name is
  not defined in the current scope of the type checker, the checker adds no error and
  only defines the variable, mutable and of type Void; after every list of later
  statements visited in that scope the name still resolves to that variable, and an
  identifier of that name visited in a checker with that symbol table has type Void and
  adds no error: every later use of the variable in its scope has type Void. If the name
  is defined in the current scope, the checker only adds the error that the variable is
  already defined. In both cases the semantic analyzer appends to the Definitions of the
  name one of kind \<open>variable\<close>, at the declaration, with type_name \<open>inferred\<close>.
\<close>

theorem C10_bare_declaration_amended:
  "(\<not> contains_local (symbol_table tc) (id_name name) \<longrightarrow>
      tc_visit_stmt (VariableDeclaration name None None l c) tc =
        tc\<lparr>symbol_table :=
             define_symbol (symbol_table tc) (VariableSymbol (id_name name) ''Void'' True)\<rparr>
      \<and> resolve (symbol_table
            (tc_visit_stmts later (tc_visit_stmt (VariableDeclaration name None None l c) tc)))
          (id_name name) = Some (VariableSymbol (id_name name) ''Void'' True)
      \<and> (symbol_table tc' =
           symbol_table
             (tc_visit_stmts later (tc_visit_stmt (VariableDeclaration name None None l c) tc))
         \<longrightarrow> tc_visit_expr (Identifier (Ident (id_name name) l' c')) tc' = (''Void'', tc')))
   \<and> (contains_local (symbol_table tc) (id_name name) \<longrightarrow>
        tc_visit_stmt (VariableDeclaration name None None l c) tc =
          add_error tc
            (''Variable '' @ quoted (id_name name) @ '' is already defined in this scope'') l c)
   \<and> map_of (definitions (sa_visit_stmt (VariableDeclaration name None None l c) sa)) (id_name name)
        = Some ((case map_of (definitions sa) (id_name name) of None \<Rightarrow> [] | Some ds \<Rightarrow> ds)
                  @ [\<lparr>def_name = id_name name, kind = ''variable'', location = mkLocation l c,
                      def_type_name = ''inferred'', detail = []\<rparr>])"
proof -
  have sa: "definitions (sa_visit_stmt (VariableDeclaration name None None l c) sa) =
          definitions (record_definition sa (id_name name) ''variable'' (mkLocation l c)
                         ''inferred'' [])"
    by (simp add: Let_def)
  have decl: "\<not> contains_local (symbol_table tc) (id_name name) \<Longrightarrow>
      tc_visit_stmt (VariableDeclaration name None None l c) tc =
        tc\<lparr>symbol_table :=
             define_symbol (symbol_table tc) (VariableSymbol (id_name name) ''Void'' True)\<rparr>"
    by (simp add: Let_def)
  have later: "\<not> contains_local (symbol_table tc) (id_name name) \<Longrightarrow>
      resolve (symbol_table
            (tc_visit_stmts later (tc_visit_stmt (VariableDeclaration name None None l c) tc)))
          (id_name name) = Some (VariableSymbol (id_name name) ''Void'' True)"
    using tc_later_resolve [of tc "id_name name" later "''Void''" True] decl by simp
  have use: "\<not> contains_local (symbol_table tc) (id_name name) \<Longrightarrow>
      symbol_table tc' =
           symbol_table
             (tc_visit_stmts later (tc_visit_stmt (VariableDeclaration name None None l c) tc))
      \<Longrightarrow> tc_visit_expr (Identifier (Ident (id_name name) l' c')) tc' = (''Void'', tc')"
    using later by simp
  have redecl: "contains_local (symbol_table tc) (id_name name) \<Longrightarrow>
        tc_visit_stmt (VariableDeclaration name None None l c) tc =
          add_error tc
            (''Variable '' @ quoted (id_name name) @ '' is already defined in this scope'') l c"
    by (simp add: Let_def)
  have defs: "map_of (definitions (sa_visit_stmt (VariableDeclaration name None None l c) sa))
          (id_name name)
        = Some ((case map_of (definitions sa) (id_name name) of None \<Rightarrow> [] | Some ds \<Rightarrow> ds)
                  @ [\<lparr>def_name = id_name name, kind = ''variable'', location = mkLocation l c,
                      def_type_name = ''inferred'', detail = []\<rparr>])"
    unfolding sa record_definition_definitions by simp
  show ?thesis
    using decl later use redecl defs by blast
qed

theorem C10_bare_declaration_amended_witness:
  "\<not> contains_local (symbol_table TypeChecker_init) ''y''
   \<and> errors (tc_visit_stmt (VariableDeclaration (Ident ''y'' 1 5) None None 1 1) TypeChecker_init)
       = []
   \<and> fst (tc_visit_expr (Identifier (Ident ''y'' 3 1))
        (tc_visit_stmts [ExpressionStatement (IntegerLiteral 1 2 1) 2 1]
           (tc_visit_stmt (VariableDeclaration (Ident ''y'' 1 5) None None 1 1)
              TypeChecker_init)))
       = ''Void''
   \<and> contains_local (symbol_table TypeChecker_init) ''print''
   \<and> errors (tc_visit_stmt (VariableDeclaration (Ident ''print'' 1 5) None None 1 1)
        TypeChecker_init)
       = [\<lparr>message = ''Variable '' @ quoted ''print'' @ '' is already defined in this scope'',
           err_line = 1, err_column = 1\<rparr>]
   \<and> map_of (definitions (sa_visit_stmt (VariableDeclaration (Ident ''y'' 1 5) None None 1 1)
        SemanticAnalyzer_init)) ''y''
       = Some [\<lparr>def_name = ''y'', kind = ''variable'', location = mkLocation 1 1,
                def_type_name = ''inferred'', detail = []\<rparr>]"
proof -
  have h1: "\<not> contains_local (symbol_table TypeChecker_init) (id_name (Ident ''y'' 1 5))"
    by code_simp
  have h2: "contains_local (symbol_table TypeChecker_init) (id_name (Ident ''print'' 1 5))"
    by code_simp
  have h3: "map_of (definitions SemanticAnalyzer_init) ''y'' = None"
    by code_simp
  note t1 = C10_bare_declaration_amended [where tc = TypeChecker_init
      and name = "Ident ''y'' 1 5" and l = 1 and c = 1
      and later = "[ExpressionStatement (IntegerLiteral 1 2 1) 2 1]"
      and tc' = "tc_visit_stmts [ExpressionStatement (IntegerLiteral 1 2 1) 2 1]
           (tc_visit_stmt (VariableDeclaration (Ident ''y'' 1 5) None None 1 1)
              TypeChecker_init)"
      and l' = 3 and c' = 1 and sa = SemanticAnalyzer_init]
  note t2 = C10_bare_declaration_amended [where tc = TypeChecker_init
      and name = "Ident ''print'' 1 5" and l = 1 and c = 1 and sa = SemanticAnalyzer_init]
  have a: "tc_visit_stmt (VariableDeclaration (Ident ''y'' 1 5) None None 1 1) TypeChecker_init =
        TypeChecker_init\<lparr>symbol_table :=
             define_symbol (symbol_table TypeChecker_init)
               (VariableSymbol (id_name (Ident ''y'' 1 5)) ''Void'' True)\<rparr>"
    using t1 h1 by blast
  have b: "tc_visit_expr (Identifier (Ident (id_name (Ident ''y'' 1 5)) 3 1))
        (tc_visit_stmts [ExpressionStatement (IntegerLiteral 1 2 1) 2 1]
           (tc_visit_stmt (VariableDeclaration (Ident ''y'' 1 5) None None 1 1)
              TypeChecker_init))
       = (''Void'', tc_visit_stmts [ExpressionStatement (IntegerLiteral 1 2 1) 2 1]
           (tc_visit_stmt (VariableDeclaration (Ident ''y'' 1 5) None None 1 1)
              TypeChecker_init))"
    using t1 h1 by blast
  have c: "tc_visit_stmt (VariableDeclaration (Ident ''print'' 1 5) None None 1 1) TypeChecker_init =
          add_error TypeChecker_init
            (''Variable '' @ quoted (id_name (Ident ''print'' 1 5))
               @ '' is already defined in this scope'') 1 1"
    using t2 h2 by blast
  have d0: "map_of (definitions (sa_visit_stmt (VariableDeclaration (Ident ''y'' 1 5) None None 1 1)
        SemanticAnalyzer_init)) (id_name (Ident ''y'' 1 5))
       = Some ((case map_of (definitions SemanticAnalyzer_init) (id_name (Ident ''y'' 1 5)) of
                  None \<Rightarrow> [] | Some ds \<Rightarrow> ds)
               @ [\<lparr>def_name = id_name (Ident ''y'' 1 5), kind = ''variable'',
                   location = mkLocation 1 1, def_type_name = ''inferred'', detail = []\<rparr>])"
    using t1 by blast
  have d: "map_of (definitions (sa_visit_stmt (VariableDeclaration (Ident ''y'' 1 5) None None 1 1)
        SemanticAnalyzer_init)) ''y''
       = Some [\<lparr>def_name = ''y'', kind = ''variable'', location = mkLocation 1 1,
                def_type_name = ''inferred'', detail = []\<rparr>]"
    using d0 h3 by (simp only: ident.sel option.case append_Nil)
  have e: "errors TypeChecker_init = []"
    by (simp add: TypeChecker_init_def)
  have h1': "\<not> contains_local (symbol_table TypeChecker_init) ''y''"
    using h1 by simp
  have h2': "contains_local (symbol_table TypeChecker_init) ''print''"
    using h2 by simp
  have a': "errors (tc_visit_stmt (VariableDeclaration (Ident ''y'' 1 5) None None 1 1)
        TypeChecker_init) = []"
    by (subst a) (simp add: e)
  have b': "fst (tc_visit_expr (Identifier (Ident ''y'' 3 1))
        (tc_visit_stmts [ExpressionStatement (IntegerLiteral 1 2 1) 2 1]
           (tc_visit_stmt (VariableDeclaration (Ident ''y'' 1 5) None None 1 1)
              TypeChecker_init)))
       = ''Void''"
    using b by (simp only: ident.sel fst_conv)
  have c': "errors (tc_visit_stmt (VariableDeclaration (Ident ''print'' 1 5) None None 1 1)
        TypeChecker_init)
       = [\<lparr>message = ''Variable '' @ quoted ''print'' @ '' is already defined in this scope'',
           err_line = 1, err_column = 1\<rparr>]"
    by (subst c) (simp add: e add_error_def)
  show ?thesis
    by (rule conjI [OF h1' conjI [OF a' conjI [OF b' conjI [OF h2' conjI [OF c' d]]]]])
qed

subsection \<open>C7: the end-of-input token and the error tokens\<close>

text \<open>
  C7: \<open>tokenize\<close> is a total function (no step of the lexer can raise: every index into
  the source is guarded by a comparison with its length, and the loops terminate). For
  every source text its result is a list of tokens none of which is an \<open>EOF\<close> token,
  followed by one \<open>EOF\<close> token, which is the last element. And for every lexer state
  \<open>s\<close> at which the loop of \<open>tokenize\<close> stands while it scans the source text
  (\<open>scan_heads\<close>): if the current character matches no token rule, then it is the
  character of the source at the position of \<open>s\<close>, the line and column of \<open>s\<close> are those
  of that position, and the result of \<open>tokenize\<close> on the source text has an \<open>ERROR\<close>
  token whose value is that single character, at that line and column.
\<close>

theorem C7_tokenize_eof_and_errors:
  "(\<exists>ts l c. tokenize (Lexer_init src) = ts @ [mkToken EOF [] l c]
       \<and> list_all (\<lambda>t. tok_type t \<noteq> EOF) ts)
   \<and> (s \<in> set (scan_heads (Lexer_init src)) \<and> current_char s = Some ch \<and> no_token_rule s ch
        \<longrightarrow>
        position s < length src \<and> src ! position s = ch
        \<and> pos_of src (position s) = (line s, column s)
        \<and> mkToken ERROR [ch] (line s) (column s) \<in> set (tokenize (Lexer_init src)))"
proof (intro conjI impI)
  show "\<exists>ts l c. tokenize (Lexer_init src) = ts @ [mkToken EOF [] l c]
       \<and> list_all (\<lambda>t. tok_type t \<noteq> EOF) ts"
    using tokenize_loop_no_EOF [of "Lexer_init src"]
    by (auto simp: tokenize_def case_prod_beta)
next
  assume h: "s \<in> set (scan_heads (Lexer_init src)) \<and> current_char s = Some ch
               \<and> no_token_rule s ch"
  have inv: "lex_inv src s"
    using scan_heads_inv [OF lex_inv_init] h by blast
  show "position s < length src" and "src ! position s = ch"
    using lex_inv_current [OF inv] h by simp_all
  show "pos_of src (position s) = (line s, column s)"
    using inv by (simp add: lex_inv_def)
  have "mkToken ERROR [ch] (line s) (column s) \<in> set (fst (tokenize_loop (Lexer_init src) []))"
    using scan_heads_error_token h by blast
  then show "mkToken ERROR [ch] (line s) (column s) \<in> set (tokenize (Lexer_init src))"
    by (simp add: tokenize_def case_prod_beta)
qed

theorem C7_tokenize_eof_and_errors_witness:
  "advance (Lexer_init ''x@'') \<in> set (scan_heads (Lexer_init ''x@''))
   \<and> current_char (advance (Lexer_init ''x@'')) = Some (CHR ''@'')
   \<and> no_token_rule (advance (Lexer_init ''x@'')) (CHR ''@'')
   \<and> mkToken ERROR ''@'' 1 2 \<in> set (tokenize (Lexer_init ''x@''))"
proof -
  have h: "advance (Lexer_init ''x@'') \<in> set (scan_heads (Lexer_init ''x@''))
             \<and> current_char (advance (Lexer_init ''x@'')) = Some (CHR ''@'')
             \<and> no_token_rule (advance (Lexer_init ''x@'')) (CHR ''@'')"
    by code_simp
  have l: "line (advance (Lexer_init ''x@'')) = 1" "column (advance (Lexer_init ''x@'')) = 2"
    by (simp_all add: Lexer_init_def advance_def Let_def)
  have t: "mkToken ERROR ''@'' (line (advance (Lexer_init ''x@'')))
             (column (advance (Lexer_init ''x@''))) \<in> set (tokenize (Lexer_init ''x@''))"
    using C7_tokenize_eof_and_errors [of "''x@''" "advance (Lexer_init ''x@'')" "CHR ''@''"] h
    by blast
  show ?thesis
    using h t [unfolded l] by blast
qed

subsection \<open>C2: lexemes and positions\<close>




end
